theory Spec2Isabelle
  imports Main "HOL-Library.Sublist" "HOL-Library.Multiset"
begin

section \<open>The extension editor: DOM nodes, strings and errors\<close>

text \<open>
  The program is \<^verbatim>\<open>extensionEditor.ts\<close>: the editor pane that shows one extension, with
  a README tab and a Contributions tab. DOM nodes are trees; a JavaScript exception is a
  value of \<open>error\<close>; a function that can throw returns \<open>error + 'a\<close>.
\<close>

datatype error = TypeError | FetchError | ParseError | DisplayError | Canceled

datatype node =
    Element string "(string \<times> string) list" "node list"
  | TextNode string
  | WebViewElement nat "string list"

text \<open>
  Modelled from the spec: the DOM helper \<^verbatim>\<open>$(tag, attrs, ...children)\<close> of
  \<^verbatim>\<open>vs/base/browser/dom\<close> is not among the sources. It is taken to build the element
  with the given tag, attributes and children, in order.
\<close>

definition dollar :: "string \<Rightarrow> (string \<times> string) list \<Rightarrow> node list \<Rightarrow> node" where
  "dollar tag attrs children = Element tag attrs children"

text \<open>
  Modelled from the spec: \<^verbatim>\<open>append(parent, child)\<close> of \<^verbatim>\<open>vs/base/browser/dom\<close> is not
  among the sources. A parent is given by the list of its children; the child is added last.
\<close>

definition append_node :: "node list \<Rightarrow> node \<Rightarrow> node list" where
  "append_node parent child = parent @ [child]"

text \<open>
  Modelled from the spec: \<^verbatim>\<open>localize(key, message, ...args)\<close> of \<^verbatim>\<open>vs/nls\<close> is not among
  the sources. In the untranslated build it returns the default message with the
  placeholder \<^verbatim>\<open>{0}\<close> replaced by the argument; \<open>string_of_nat\<close> is the decimal numeral
  JavaScript prints for a length.
\<close>

fun string_of_nat :: "nat \<Rightarrow> string" where
  "string_of_nat n =
     (if n < 10 then [char_of (48 + n)]
      else string_of_nat (n div 10) @ [char_of (48 + n mod 10)])"

declare string_of_nat.simps [simp del]

fun nls_format :: "string \<Rightarrow> string \<Rightarrow> string" where
  "nls_format [] a = []"
| "nls_format (c # cs) a =
     (if c = CHR ''{'' \<and> take 2 cs = ''0}'' then a @ nls_format (drop 2 cs) a
      else c # nls_format cs a)"

definition localize :: "string \<Rightarrow> string \<Rightarrow> string" where
  "localize key message = message"

definition localize1 :: "string \<Rightarrow> string \<Rightarrow> nat \<Rightarrow> string" where
  "localize1 key message n = nls_format message (string_of_nat n)"

subsection \<open>renderBody\<close>

text \<open>
  The template literal of \<open>renderBody\<close>, with its line breaks and tabs. The style sheet's
  address is what \<^verbatim>\<open>require.toUrl('./media/markdown.css')\<close> returns, a parameter here.
\<close>

definition nl :: string where
  "nl = [CHR 0x0A]"

definition tabs :: "nat \<Rightarrow> string" where
  "tabs n = replicate n (CHR 0x09)"

definition dq :: string where
  "dq = [CHR 0x22]"

definition renderBody_head :: "string \<Rightarrow> string" where
  "renderBody_head cssUrl =
     ''<!DOCTYPE html>'' @ nl
     @ tabs 2 @ ''<html>'' @ nl
     @ tabs 3 @ ''<head>'' @ nl
     @ tabs 4 @ ''<meta http-equiv='' @ dq @ ''Content-type'' @ dq @ '' content='' @ dq
         @ ''text/html;charset=UTF-8'' @ dq @ ''>'' @ nl
     @ tabs 4 @ ''<link rel='' @ dq @ ''stylesheet'' @ dq @ '' type='' @ dq @ ''text/css'' @ dq
         @ '' href='' @ dq @ cssUrl @ dq @ '' >'' @ nl
     @ tabs 3 @ ''</head>'' @ nl
     @ tabs 3 @ ''<body>''"

definition renderBody_tail :: string where
  "renderBody_tail = ''</body>'' @ nl @ tabs 2 @ ''</html>''"

definition renderBody :: "string \<Rightarrow> string \<Rightarrow> string" where
  "renderBody cssUrl body = renderBody_head cssUrl @ body @ renderBody_tail"


section \<open>The extension manifest\<close>

text \<open>
  Modelled from the spec: the interface \<open>IExtensionManifest\<close> and the interfaces of its
  contributions (\<^verbatim>\<open>vs/platform/extensionManagement/common/extensionManagement\<close>) are not
  among the sources. The records hold the fields the editor reads; an optional field is an
  \<open>option\<close>. A JavaScript object used as a dictionary (\<open>properties\<close>, \<open>menus\<close>) is the
  list of its own entries in the order \<^verbatim>\<open>Object.keys\<close> lists them, so reading
  \<^verbatim>\<open>o[key]\<close> for a key of that list is the entry's second component.
\<close>

record ICommand =
  ic_command :: string
  ic_title :: string

record IConfigurationProperty =
  description :: string

record IConfiguration =
  properties :: "(string \<times> IConfigurationProperty) list option"

record IDebugger =
  d_label :: "string option"
  d_type :: string
  d_runtime :: string

record IJSONValidation =
  fileMatch :: string

record IKeyBinding =
  ik_command :: string
  ik_key :: string

record IMenu =
  im_command :: string

record ITheme =
  t_label :: string

record IExtensionContributions =
  commands :: "ICommand list option"
  configuration :: "IConfiguration option"
  debuggers :: "IDebugger list option"
  jsonValidation :: "IJSONValidation list option"
  keybindings :: "IKeyBinding list option"
  menus :: "(string \<times> IMenu list) list option"
  themes :: "ITheme list option"

record IExtensionManifest =
  contributes :: "IExtensionContributions option"

text \<open>\<^verbatim>\<open>x || []\<close> for an optional array.\<close>

definition or_empty :: "'a list option \<Rightarrow> 'a list" where
  "or_empty x = (case x of None \<Rightarrow> [] | Some xs \<Rightarrow> xs)"

section \<open>Rendering the contributions\<close>

text \<open>
  Every renderer takes the container (its children so far) and the manifest and returns the
  container's children afterwards, or the exception it throws. Each of them reads a field
  of \<^verbatim>\<open>manifest.contributes\<close> first, which throws a \<open>TypeError\<close> when \<open>contributes\<close> is
  undefined.
\<close>

definition details_section :: "string \<Rightarrow> node \<Rightarrow> node" where
  "details_section summary body =
     dollar ''details'' [(''open'', ''true'')] [dollar ''summary'' [] [TextNode summary], body]"

definition th :: "string \<Rightarrow> node" where
  "th s = dollar ''th'' [] [TextNode s]"

subsection \<open>renderSettings\<close>

definition renderSettings_contrib :: "IExtensionContributions \<Rightarrow> (string \<times> IConfigurationProperty) list" where
  "renderSettings_contrib c =
     (case configuration c of None \<Rightarrow> []
      | Some conf \<Rightarrow> (case properties conf of None \<Rightarrow> [] | Some ps \<Rightarrow> ps))"

definition renderSettings_row :: "string \<times> IConfigurationProperty \<Rightarrow> node" where
  "renderSettings_row e =
     dollar ''tr'' []
       [dollar ''td'' [] [dollar ''code'' [] [TextNode (fst e)]],
        dollar ''td'' [] [TextNode (description (snd e))]]"

definition renderSettings :: "node list \<Rightarrow> IExtensionManifest \<Rightarrow> error + node list" where
  "renderSettings container manifest =
     (case contributes manifest of None \<Rightarrow> Inl TypeError
      | Some c \<Rightarrow>
          (let contrib = renderSettings_contrib c in
           if length contrib = 0 then Inr container
           else Inr (append_node container
             (details_section (localize1 ''settings'' ''Settings ({0})'' (length contrib))
               (dollar ''table'' []
                 (dollar ''tr'' [] [th (localize ''setting name'' ''Name''),
                                  th (localize ''description'' ''Description'')]
                  # map renderSettings_row contrib))))))"

subsection \<open>renderDebuggers\<close>

definition renderDebuggers_row :: "IDebugger \<Rightarrow> node" where
  "renderDebuggers_row d =
     dollar ''tr'' []
       [dollar ''td'' []
          [TextNode (case d_label d of None \<Rightarrow> d_type d
                     | Some l \<Rightarrow> if l = [] then d_type d else l)],
        dollar ''td'' [] [TextNode (d_runtime d)]]"

definition renderDebuggers :: "node list \<Rightarrow> IExtensionManifest \<Rightarrow> error + node list" where
  "renderDebuggers container manifest =
     (case contributes manifest of None \<Rightarrow> Inl TypeError
      | Some c \<Rightarrow>
          (let contrib = or_empty (debuggers c) in
           if length contrib = 0 then Inr container
           else Inr (append_node container
             (details_section (localize1 ''debuggers'' ''Debuggers ({0})'' (length contrib))
               (dollar ''table'' []
                 (dollar ''tr'' [] [th (localize ''debugger name'' ''Name''),
                                  th (localize ''runtime'' ''Runtime'')]
                  # map renderDebuggers_row contrib))))))"

subsection \<open>renderThemes\<close>

definition renderThemes :: "node list \<Rightarrow> IExtensionManifest \<Rightarrow> error + node list" where
  "renderThemes container manifest =
     (case contributes manifest of None \<Rightarrow> Inl TypeError
      | Some c \<Rightarrow>
          (let contrib = or_empty (themes c) in
           if length contrib = 0 then Inr container
           else Inr (append_node container
             (details_section (localize1 ''themes'' ''Themes ({0})'' (length contrib))
               (dollar ''ul'' []
                 (map (\<lambda>theme. dollar ''li'' [] [TextNode (t_label theme)]) contrib))))))"

subsection \<open>renderJSONValidation\<close>

definition renderJSONValidation :: "node list \<Rightarrow> IExtensionManifest \<Rightarrow> error + node list" where
  "renderJSONValidation container manifest =
     (case contributes manifest of None \<Rightarrow> Inl TypeError
      | Some c \<Rightarrow>
          (let contrib = or_empty (jsonValidation c) in
           if length contrib = 0 then Inr container
           else Inr (append_node container
             (details_section
               (localize1 ''JSON Validation'' ''JSON Validation ({0})'' (length contrib))
               (dollar ''ul'' []
                 (map (\<lambda>v. dollar ''li'' [] [TextNode (fileMatch v)]) contrib))))))"


subsection \<open>renderCommands\<close>

text \<open>
  The rows of the table are the objects of the array \<open>commands\<close>, each shared with the
  dictionary \<open>allCommands\<close>: the dictionary holds, for a key, the position of the object
  in the array, so that a \<^verbatim>\<open>push\<close> through the dictionary changes the row.
\<close>

record Command =
  c_id :: string
  c_title :: string
  c_keybindings :: "string list"
  c_menus :: "string list"

text \<open>
  \<open>allCommands\<close> is made by the object literal \<^verbatim>\<open>{}\<close>, an ordinary JavaScript object whose
  prototype is \<^verbatim>\<open>Object.prototype\<close>. Reading \<^verbatim>\<open>allCommands[key]\<close> therefore finds the
  object's own property, or else what the prototype chain holds under that key: the
  members of \<^verbatim>\<open>Object.prototype\<close>, all of them truthy and none of them a \<open>Command\<close>.
  Assigning under the key \<^verbatim>\<open>__proto__\<close> runs the setter of \<^verbatim>\<open>Object.prototype\<close>: it makes
  no own property and replaces the prototype by the assigned \<open>Command\<close>, whose four fields
  are then found through the chain too, before those of \<^verbatim>\<open>Object.prototype\<close>;
  reading \<^verbatim>\<open>__proto__\<close> returns the prototype.
\<close>

definition object_prototype_keys :: "string list" where
  "object_prototype_keys =
     [''constructor'', ''toString'', ''toLocaleString'', ''valueOf'', ''hasOwnProperty'',
      ''isPrototypeOf'', ''propertyIsEnumerable'', ''__defineGetter__'', ''__defineSetter__'',
      ''__lookupGetter__'', ''__lookupSetter__'', ''__proto__'']"

record dictionary =
  own :: "(string \<times> nat) list"
  proto :: "nat option"

text \<open>What a read of the dictionary gives: a falsy value, a \<open>Command\<close>, or another truthy value.\<close>

datatype slot = Falsy | Row nat | Other_truthy

definition string_slot :: "string \<Rightarrow> slot" where
  "string_slot s = (if s = [] then Falsy else Other_truthy)"

definition dictionary_get :: "Command list \<Rightarrow> dictionary \<Rightarrow> string \<Rightarrow> slot" where
  "dictionary_get cs d k =
     (case map_of (own d) k of
        Some i \<Rightarrow> Row i
      | None \<Rightarrow>
          (case proto d of
             None \<Rightarrow> if k \<in> set object_prototype_keys then Other_truthy else Falsy
           | Some p \<Rightarrow>
               if k = ''__proto__'' then Row p
               else if k = ''id'' then string_slot (c_id (cs ! p))
               else if k = ''title'' then string_slot (c_title (cs ! p))
               else if k = ''keybindings'' \<or> k = ''menus'' then Other_truthy
               else if k \<in> set object_prototype_keys then Other_truthy
               else Falsy))"

definition dictionary_set :: "dictionary \<Rightarrow> string \<Rightarrow> nat \<Rightarrow> dictionary" where
  "dictionary_set d k i =
     (if k = ''__proto__'' then d\<lparr>proto := Some i\<rparr> else d\<lparr>own := (k, i) # own d\<rparr>)"

text \<open>\<^verbatim>\<open>forEach\<close> with a callback that can throw: the first exception ends the loop.\<close>

fun forEach :: "('a \<Rightarrow> 's \<Rightarrow> error + 's) \<Rightarrow> 'a list \<Rightarrow> 's \<Rightarrow> error + 's" where
  "forEach f [] s = Inr s"
| "forEach f (x # xs) s = (case f x s of Inl e \<Rightarrow> Inl e | Inr s' \<Rightarrow> forEach f xs s')"

text \<open>Lines 366 to 373: one row per declared command, and the dictionary over them.\<close>

definition declared_commands :: "IExtensionContributions \<Rightarrow> Command list" where
  "declared_commands c =
     map (\<lambda>x. \<lparr>c_id = ic_command x, c_title = ic_title x, c_keybindings = [], c_menus = []\<rparr>)
       (or_empty (commands c))"

definition allCommands_of :: "Command list \<Rightarrow> dictionary" where
  "allCommands_of cs =
     fold (\<lambda>i r. dictionary_set r (c_id (cs ! i)) i) [0 ..< length cs] \<lparr>own = [], proto = None\<rparr>"

text \<open>Lines 377 to 387: one menu entry of the context \<open>ctx\<close>.\<close>

definition menu_step :: "string \<Rightarrow> IMenu \<Rightarrow> Command list \<times> dictionary \<Rightarrow> error + Command list \<times> dictionary" where
  "menu_step ctx menu st =
     (case st of (cs, allCommands) \<Rightarrow>
        (case dictionary_get cs allCommands (im_command menu) of
           Falsy \<Rightarrow>
             Inr (cs @ [\<lparr>c_id = im_command menu, c_title = [], c_keybindings = [], c_menus = [ctx]\<rparr>],
                  dictionary_set allCommands (im_command menu) (length cs))
         | Row i \<Rightarrow> Inr (cs[i := (cs ! i)\<lparr>c_menus := c_menus (cs ! i) @ [ctx]\<rparr>], allCommands)
         | Other_truthy \<Rightarrow> Inl TypeError))"

text \<open>
  Lines 390 to 402: one keybinding entry. The label is computed by the keybinding service
  from the \<open>Keybinding\<close> that \<^verbatim>\<open>Keybinding.fromUserSettingsLabel\<close> parses; both are outside
  this file and are parameters: \<open>fromUserSettingsLabel\<close> gives the key code and
  \<open>getLabelFor\<close> the label of the \<open>Keybinding\<close> with that code.
\<close>

datatype Keybinding = Keybinding nat

record keybinding_services =
  fromUserSettingsLabel :: "string \<Rightarrow> nat"
  getLabelFor :: "Keybinding \<Rightarrow> string"

definition keybinding_step :: "keybinding_services \<Rightarrow> IKeyBinding \<Rightarrow> Command list \<times> dictionary \<Rightarrow> error + Command list \<times> dictionary" where
  "keybinding_step ks userString st =
     (case st of (cs, allCommands) \<Rightarrow>
        (let keybinding = Keybinding (fromUserSettingsLabel ks (ik_key userString));
             key = getLabelFor ks keybinding
         in case dictionary_get cs allCommands (ik_command userString) of
              Falsy \<Rightarrow>
                Inr (cs @ [\<lparr>c_id = ik_command userString, c_title = [], c_keybindings = [key], c_menus = []\<rparr>],
                     dictionary_set allCommands (ik_command userString) (length cs))
            | Row i \<Rightarrow> Inr (cs[i := (cs ! i)\<lparr>c_keybindings := c_keybindings (cs ! i) @ [key]\<rparr>], allCommands)
            | Other_truthy \<Rightarrow> Inl TypeError))"

text \<open>The array \<open>commands\<close> as it stands at line 404, or the exception thrown before.\<close>

definition renderCommands_commands :: "keybinding_services \<Rightarrow> IExtensionContributions \<Rightarrow> error + Command list" where
  "renderCommands_commands ks c =
     (let cs = declared_commands c;
          allCommands = allCommands_of cs
      in case forEach (\<lambda>e. forEach (menu_step (fst e)) (snd e)) (or_empty (menus c)) (cs, allCommands) of
           Inl e \<Rightarrow> Inl e
         | Inr st \<Rightarrow>
             (case forEach (keybinding_step ks) (or_empty (keybindings c)) st of
                Inl e \<Rightarrow> Inl e
              | Inr st' \<Rightarrow> Inr (fst st')))"

definition renderCommands_row :: "Command \<Rightarrow> node" where
  "renderCommands_row c =
     dollar ''tr'' []
       [dollar ''td'' [] [TextNode (c_id c)],
        dollar ''td'' [] [TextNode (c_title c)],
        dollar ''td'' [] (map (\<lambda>keybinding. dollar ''code'' [] [TextNode keybinding]) (c_keybindings c)),
        dollar ''td'' [] (map (\<lambda>ctx. dollar ''code'' [] [TextNode ctx]) (c_menus c))]"

definition renderCommands :: "keybinding_services \<Rightarrow> node list \<Rightarrow> IExtensionManifest \<Rightarrow> error + node list" where
  "renderCommands ks container manifest =
     (case contributes manifest of None \<Rightarrow> Inl TypeError
      | Some c \<Rightarrow>
          (case renderCommands_commands ks c of
             Inl e \<Rightarrow> Inl e
           | Inr cs \<Rightarrow>
               if length cs = 0 then Inr container
               else Inr (append_node container
                 (details_section (localize1 ''commands'' ''Commands ({0})'' (length cs))
                   (dollar ''table'' []
                     (dollar ''tr'' [] [th (localize ''command name'' ''Name''),
                                      th (localize ''description'' ''Description''),
                                      th (localize ''keyboard shortcuts'' ''Keyboard Shortcuts''),
                                      th (localize ''menuContexts'' ''Menu Contexts'')]
                      # map renderCommands_row cs))))))"

subsection \<open>The body of openContributions\<close>

text \<open>
  Lines 283 to 290, run when the manifest has arrived: the content element is emptied, a
  \<^verbatim>\<open>div.subcontent\<close> is appended and the five renderers fill it in turn. An exception leaves
  the sections rendered before it in place. The result is the content element's children and
  the exception, if any.
\<close>

definition subcontent :: "node list \<Rightarrow> node" where
  "subcontent sections = dollar ''div'' [(''class'', ''subcontent'')] sections"

definition render_sections :: "keybinding_services \<Rightarrow> IExtensionManifest \<Rightarrow> node list \<times> error option" where
  "render_sections ks manifest =
     (case renderSettings [] manifest of Inl e \<Rightarrow> ([], Some e) | Inr c1 \<Rightarrow>
      (case renderCommands ks c1 manifest of Inl e \<Rightarrow> (c1, Some e) | Inr c2 \<Rightarrow>
       (case renderThemes c2 manifest of Inl e \<Rightarrow> (c2, Some e) | Inr c3 \<Rightarrow>
        (case renderJSONValidation c3 manifest of Inl e \<Rightarrow> (c3, Some e) | Inr c4 \<Rightarrow>
         (case renderDebuggers c4 manifest of Inl e \<Rightarrow> (c4, Some e) | Inr c5 \<Rightarrow>
          (c5, None))))))"



section \<open>The editor as a state machine\<close>

text \<open>
  The editor's fields that the two tabs work on, and the promises in flight. The header
  widgets that \<open>setInput\<close> fills (icon, name, publisher, rating, install count and the
  three actions) take no part in what follows; their disposables are kept, as \<open>OtherD\<close>.
\<close>

text \<open>
  An extension as the editor sees it: \<open>getReadme()\<close> and \<open>getManifest()\<close> return promises,
  which are either settled already (\<open>Some\<close> outcome) or settle later, by an event.
\<close>

record extension =
  ext_name :: string
  readme_ready :: "(error + string) option"
  manifest_ready :: "(error + IExtensionManifest) option"

record Action =
  a_id :: string
  a_label :: string
  a_enabled :: bool

definition NavbarSection_Readme :: string where
  "NavbarSection_Readme = ''readme''"

definition NavbarSection_Contributions :: string where
  "NavbarSection_Contributions = ''contributions''"

text \<open>
  Modelled from the spec: \<open>TPromise\<close> (\<^verbatim>\<open>vs/base/common/winjs.base\<close>), \<open>always\<close>
  (\<^verbatim>\<open>vs/base/common/async\<close>) and \<open>Cache\<close> (\<^verbatim>\<open>vs/base/common/cache\<close>) are not among the
  sources. The spec says of them: "cancel a pending load when a new one starts" and "cache a
  promise so repeat views reuse prior fetch results". A fetch is the promise that
  \<open>getReadme()\<close> or \<open>getManifest()\<close> returned; a \<open>Cache\<close> holds the task's extension and
  the fetch once the task has run, and \<open>get()\<close> runs the task only when it holds none. A
  load is the promise that \<open>loadContents\<close> keeps: the chain of \<open>then\<close> on a fetch. It is
  pending until the fetch settles, and the chain runs at once when the fetch has settled
  already. Cancelling a pending load ends it through its error path, and the cancel reaches
  the promise that the load is chained on, the cached fetch: a fetch that is still pending
  ends with the error \<open>Canceled\<close>. Cancelling a load that is no longer pending does
  nothing. Whether a \<open>Cache\<close> keeps a promise that has been cancelled, or forgets it so
  that the next \<open>get()\<close> runs the task again, the spec does not say: \<open>c_forgets\<close> tells
  which, and the caches are made with \<open>cache_forgets\<close> of the services.
\<close>

datatype status = Pending | Resolved | Rejected error | Cancelled

datatype target = ReadmeFetch nat | ManifestFetch nat

record load =
  l_target :: target
  l_input :: nat
  l_status :: status

record Cache =
  c_task :: extension
  c_input :: nat
  c_forgets :: bool
  c_promise :: "nat option"

text \<open>
  Modelled from the spec: \<open>IDisposable\<close>, \<open>dispose\<close> and \<open>toDisposable\<close>
  (\<^verbatim>\<open>vs/base/common/lifecycle\<close>), \<open>Emitter\<close> (\<^verbatim>\<open>vs/base/common/event\<close>) and \<open>WebView\<close> are not
  among the sources. A disposable is named by what disposing it does: \<open>CancelLoad\<close> calls
  \<open>cancel()\<close> on a load, \<open>NavListenerD\<close> removes a listener of the navigation bar,
  \<open>WebViewD\<close> takes the webview's element out of its parent; \<open>dispose\<close> of an array
  disposes its elements in order and returns the empty array.
\<close>

datatype disposable =
    CancelLoad nat
  | WebViewD nat
  | LinkListenerD nat
  | ThemeListenerD nat
  | NavListenerD nat
  | OtherD string

record editor =
  navbar_actions :: "Action list"
  navbar_listeners :: "(nat \<times> extension) list"
  extensionReadme :: "Cache option"
  extensionManifest :: "Cache option"
  contentDisposables :: "disposable list"
  transientDisposables :: "disposable list"
  content :: "node list"
  content_loading :: bool
  readme_promises :: "(error + string) option list"
  manifest_promises :: "(error + IExtensionManifest) option list"
  loads :: "load list"
  getReadme_calls :: "nat list"
  getManifest_calls :: "nat list"
  inputs :: nat
  next_id :: nat

text \<open>
  The services the editor is built with. \<open>marked_parse\<close> is \<^verbatim>\<open>marked.parse\<close>, which may
  throw; \<open>toUrl\<close> is the address of the style sheet; \<open>webview_throws\<close> tells at which
  statement of lines 262 to 271, if any, showing a document in a \<open>WebView\<close> throws.
\<close>

datatype display_stage = Construct | Style | Contents | Listeners

record services =
  keybindingService :: keybinding_services
  marked_parse :: "string \<Rightarrow> error + string"
  toUrl :: string
  webview_throws :: "string \<Rightarrow> display_stage option"
  cache_forgets :: bool

text \<open>The constructor and \<open>createEditor\<close>: nothing shown, no input, both caches \<^verbatim>\<open>null\<close>.\<close>

definition initial :: editor where
  "initial =
     \<lparr>navbar_actions = [], navbar_listeners = [], extensionReadme = None,
      extensionManifest = None, contentDisposables = [], transientDisposables = [],
      content = [], content_loading = False, readme_promises = [], manifest_promises = [],
      loads = [], getReadme_calls = [], getManifest_calls = [], inputs = 0, next_id = 0\<rparr>"

subsection \<open>openReadme\<close>

definition set_status :: "nat \<Rightarrow> status \<Rightarrow> editor \<Rightarrow> editor" where
  "set_status lid st s = s\<lparr>loads := (loads s)[lid := (loads s ! lid)\<lparr>l_status := st\<rparr>]\<rparr>"

definition no_readme :: node where
  "no_readme = dollar ''p'' [] [TextNode (localize ''noReadme'' ''No README available.'')]"

text \<open>Lines 275 and 276, the error callback of the chain.\<close>

definition show_no_readme :: "editor \<Rightarrow> editor" where
  "show_no_readme s = s\<lparr>content := append_node (content s) no_readme\<rparr>"

text \<open>
  Lines 262 to 272, the callback that shows the document: the constructor of \<open>WebView\<close>
  appends the webview to the content element, then the style and the contents are set, the
  two listeners registered and the three disposables pushed.
\<close>

definition display_readme :: "services \<Rightarrow> string \<Rightarrow> editor \<Rightarrow> editor \<times> (error + unit)" where
  "display_readme sv body s =
     (let w = next_id s in
      case webview_throws sv body of
        Some Construct \<Rightarrow> (s, Inl DisplayError)
      | Some Style \<Rightarrow>
          (s\<lparr>content := append_node (content s) (WebViewElement w []), next_id := Suc w\<rparr>,
           Inl DisplayError)
      | Some Contents \<Rightarrow>
          (s\<lparr>content := append_node (content s) (WebViewElement w []), next_id := Suc w\<rparr>,
           Inl DisplayError)
      | Some Listeners \<Rightarrow>
          (s\<lparr>content := append_node (content s) (WebViewElement w [body]), next_id := Suc w\<rparr>,
           Inl DisplayError)
      | None \<Rightarrow>
          (s\<lparr>content := append_node (content s) (WebViewElement w [body]), next_id := Suc w,
             contentDisposables := contentDisposables s @ [WebViewD w, LinkListenerD w, ThemeListenerD w]\<rparr>,
           Inr ()))"

text \<open>Lines 258 to 273: the chain up to the error callback, run on the fetch's outcome.\<close>

definition readme_chain :: "services \<Rightarrow> error + string \<Rightarrow> editor \<Rightarrow> editor \<times> (error + unit)" where
  "readme_chain sv r s =
     (case r of
        Inl e \<Rightarrow> (s, Inl e)
      | Inr text \<Rightarrow>
          (case marked_parse sv text of
             Inl e \<Rightarrow> (s, Inl e)
           | Inr html \<Rightarrow> display_readme sv (renderBody (toUrl sv) html) s))"

text \<open>
  Lines 274 to 277: \<^verbatim>\<open>.then(null, () => ...)\<close>. The callback returns normally, so the
  promise it yields resolves whatever the chain before it did.
\<close>

definition readme_then :: "services \<Rightarrow> error + string \<Rightarrow> editor \<Rightarrow> editor \<times> status" where
  "readme_then sv r s =
     (case readme_chain sv r s of
        (s', Inl e) \<Rightarrow> (show_no_readme s', Resolved)
      | (s', Inr u) \<Rightarrow> (s', Resolved))"

subsection \<open>openContributions\<close>

text \<open>Lines 282 to 291: the callback on the manifest; a rejected fetch is passed on.\<close>

definition manifest_then :: "services \<Rightarrow> error + IExtensionManifest \<Rightarrow> editor \<Rightarrow> editor \<times> status" where
  "manifest_then sv r s =
     (case r of
        Inl e \<Rightarrow> (s, Rejected e)
      | Inr manifest \<Rightarrow>
          (case render_sections (keybindingService sv) manifest of
             (sections, None) \<Rightarrow> (s\<lparr>content := [subcontent sections]\<rparr>, Resolved)
           | (sections, Some e) \<Rightarrow> (s\<lparr>content := [subcontent sections]\<rparr>, Rejected e)))"

subsection \<open>Loads: continuing and cancelling\<close>

text \<open>
  A pending load continues when its fetch settles: the chain of its tab runs, and then the
  callback that \<open>always\<close> attached in \<open>loadContents\<close> removes the class \<^verbatim>\<open>loading\<close>.
\<close>

definition continue_readme :: "services \<Rightarrow> error + string \<Rightarrow> nat \<Rightarrow> editor \<Rightarrow> editor" where
  "continue_readme sv r lid s =
     (if lid < length (loads s) \<and> l_status (loads s ! lid) = Pending
      then (case readme_then sv r s of (s', st) \<Rightarrow> (set_status lid st s')\<lparr>content_loading := False\<rparr>)
      else s)"

definition continue_manifest :: "services \<Rightarrow> error + IExtensionManifest \<Rightarrow> nat \<Rightarrow> editor \<Rightarrow> editor" where
  "continue_manifest sv r lid s =
     (if lid < length (loads s) \<and> l_status (loads s ! lid) = Pending
      then (case manifest_then sv r s of (s', st) \<Rightarrow> (set_status lid st s')\<lparr>content_loading := False\<rparr>)
      else s)"

text \<open>The loads that wait for a fetch, oldest first.\<close>

definition waiting_on :: "target \<Rightarrow> editor \<Rightarrow> nat list" where
  "waiting_on t s =
     filter (\<lambda>lid. l_target (loads s ! lid) = t \<and> l_status (loads s ! lid) = Pending)
       [0 ..< length (loads s)]"

text \<open>
  A load whose fetch ends with the error \<open>Canceled\<close>: the error callback of the README
  chain runs and its promise resolves; the chain on a manifest has none and is rejected.
\<close>

definition fail_load :: "nat \<Rightarrow> editor \<Rightarrow> editor" where
  "fail_load lid s =
     (if lid < length (loads s) \<and> l_status (loads s ! lid) = Pending
      then (case l_target (loads s ! lid) of
              ReadmeFetch f \<Rightarrow> (set_status lid Resolved (show_no_readme s))\<lparr>content_loading := False\<rparr>
            | ManifestFetch f \<Rightarrow> (set_status lid (Rejected Canceled) s)\<lparr>content_loading := False\<rparr>)
      else s)"

text \<open>A cache that forgets drops the promise \<open>f\<close> when \<open>f\<close> is cancelled.\<close>

definition forget :: "nat \<Rightarrow> Cache option \<Rightarrow> Cache option" where
  "forget f co =
     (case co of
        None \<Rightarrow> None
      | Some c \<Rightarrow> if c_forgets c \<and> c_promise c = Some f then Some (c\<lparr>c_promise := None\<rparr>) else Some c)"

text \<open>
  \<open>cancel()\<close> reaching a fetch: a pending fetch ends with the error \<open>Canceled\<close>, the cache
  that holds it may forget it, and the loads that still wait for it end by that error.
\<close>

definition cancel_fetch :: "target \<Rightarrow> editor \<Rightarrow> editor" where
  "cancel_fetch t s =
     (case t of
        ReadmeFetch f \<Rightarrow>
          (if f < length (readme_promises s) \<and> readme_promises s ! f = None
           then (let s1 = s\<lparr>readme_promises := (readme_promises s)[f := Some (Inl Canceled)],
                            extensionReadme := forget f (extensionReadme s)\<rparr>
                 in fold fail_load (waiting_on t s1) s1)
           else s)
      | ManifestFetch f \<Rightarrow>
          (if f < length (manifest_promises s) \<and> manifest_promises s ! f = None
           then (let s1 = s\<lparr>manifest_promises := (manifest_promises s)[f := Some (Inl Canceled)],
                            extensionManifest := forget f (extensionManifest s)\<rparr>
                 in fold fail_load (waiting_on t s1) s1)
           else s))"

text \<open>
  \<open>promise.cancel()\<close> on a load, line 436: a pending load ends with the error \<open>Canceled\<close>,
  which runs the error callback of its chain (the README chain has one) and the callback
  of \<open>always\<close>; the cancel then reaches the fetch that the chain was made on (lines 258
  and 281).
\<close>

definition cancel_load :: "nat \<Rightarrow> editor \<Rightarrow> editor" where
  "cancel_load lid s =
     (if lid < length (loads s) \<and> l_status (loads s ! lid) = Pending
      then (case l_target (loads s ! lid) of
              ReadmeFetch f \<Rightarrow>
                cancel_fetch (ReadmeFetch f)
                  ((set_status lid Cancelled (show_no_readme s))\<lparr>content_loading := False\<rparr>)
            | ManifestFetch f \<Rightarrow>
                cancel_fetch (ManifestFetch f)
                  ((set_status lid Cancelled s)\<lparr>content_loading := False\<rparr>))
      else s)"

fun is_webview :: "nat \<Rightarrow> node \<Rightarrow> bool" where
  "is_webview w (WebViewElement v cs) = (v = w)"
| "is_webview w n = False"

definition dispose_one :: "disposable \<Rightarrow> editor \<Rightarrow> editor" where
  "dispose_one d s =
     (case d of
        CancelLoad lid \<Rightarrow> cancel_load lid s
      | WebViewD w \<Rightarrow> s\<lparr>content := filter (\<lambda>n. \<not> is_webview w n) (content s)\<rparr>
      | NavListenerD n \<Rightarrow> s\<lparr>navbar_listeners := filter (\<lambda>l. fst l \<noteq> n) (navbar_listeners s)\<rparr>
      | LinkListenerD w \<Rightarrow> s
      | ThemeListenerD w \<Rightarrow> s
      | OtherD x \<Rightarrow> s)"

definition dispose :: "disposable list \<Rightarrow> editor \<Rightarrow> editor" where
  "dispose ds s = fold dispose_one ds s"

subsection \<open>The caches\<close>

text \<open>\<open>this.extensionReadme.get()\<close>: the fetch, and the editor after the call; \<open>None\<close> when the field is \<^verbatim>\<open>null\<close>.\<close>

definition extensionReadme_get :: "editor \<Rightarrow> (nat \<times> editor) option" where
  "extensionReadme_get s =
     (case extensionReadme s of
        None \<Rightarrow> None
      | Some c \<Rightarrow>
          (case c_promise c of
             Some f \<Rightarrow> Some (f, s)
           | None \<Rightarrow>
               (let f = length (readme_promises s) in
                Some (f, s\<lparr>readme_promises := readme_promises s @ [readme_ready (c_task c)],
                           getReadme_calls := getReadme_calls s @ [c_input c],
                           extensionReadme := Some (c\<lparr>c_promise := Some f\<rparr>)\<rparr>))))"

definition extensionManifest_get :: "editor \<Rightarrow> (nat \<times> editor) option" where
  "extensionManifest_get s =
     (case extensionManifest s of
        None \<Rightarrow> None
      | Some c \<Rightarrow>
          (case c_promise c of
             Some f \<Rightarrow> Some (f, s)
           | None \<Rightarrow>
               (let f = length (manifest_promises s) in
                Some (f, s\<lparr>manifest_promises := manifest_promises s @ [manifest_ready (c_task c)],
                           getManifest_calls := getManifest_calls s @ [c_input c],
                           extensionManifest := Some (c\<lparr>c_promise := Some f\<rparr>)\<rparr>))))"

subsection \<open>loadContents\<close>

text \<open>
  The loading tasks that \<open>openReadme\<close> and \<open>openContributions\<close> pass: the cache's \<open>get()\<close>
  and the chain on it. They return the load, or \<open>None\<close> when they throw.
\<close>

definition openReadme_task :: "services \<Rightarrow> editor \<Rightarrow> (nat \<times> editor) option" where
  "openReadme_task sv s =
     (case extensionReadme_get s of
        None \<Rightarrow> None
      | Some (f, s1) \<Rightarrow>
          (let lid = length (loads s1);
               s2 = s1\<lparr>loads := loads s1 @ [\<lparr>l_target = ReadmeFetch f, l_input = inputs s1, l_status = Pending\<rparr>]\<rparr>
           in case readme_promises s2 ! f of
                None \<Rightarrow> Some (lid, s2)
              | Some r \<Rightarrow> (case readme_then sv r s2 of (s3, st) \<Rightarrow> Some (lid, set_status lid st s3))))"

definition openContributions_task :: "services \<Rightarrow> editor \<Rightarrow> (nat \<times> editor) option" where
  "openContributions_task sv s =
     (case extensionManifest_get s of
        None \<Rightarrow> None
      | Some (f, s1) \<Rightarrow>
          (let lid = length (loads s1);
               s2 = s1\<lparr>loads := loads s1 @ [\<lparr>l_target = ManifestFetch f, l_input = inputs s1, l_status = Pending\<rparr>]\<rparr>
           in case manifest_promises s2 ! f of
                None \<Rightarrow> Some (lid, s2)
              | Some r \<Rightarrow> (case manifest_then sv r s2 of (s3, st) \<Rightarrow> Some (lid, set_status lid st s3))))"

text \<open>Line 428.\<close>

definition dispose_contentDisposables :: "editor \<Rightarrow> editor" where
  "dispose_contentDisposables s = (dispose (contentDisposables s) s)\<lparr>contentDisposables := []\<rparr>"

text \<open>Lines 430 and 431.\<close>

definition empty_content :: "editor \<Rightarrow> editor" where
  "empty_content s = s\<lparr>content := [], content_loading := True\<rparr>"

text \<open>
  Lines 433 to 436: the task runs; \<open>always\<close> removes the class \<^verbatim>\<open>loading\<close> at once when the
  load is no longer pending; the disposable that cancels the load is pushed.
\<close>

definition start_load :: "(editor \<Rightarrow> (nat \<times> editor) option) \<Rightarrow> editor \<Rightarrow> editor" where
  "start_load loadingTask s =
     (case loadingTask s of
        None \<Rightarrow> s
      | Some (lid, s1) \<Rightarrow>
          (let s2 = (if l_status (loads s1 ! lid) = Pending then s1 else s1\<lparr>content_loading := False\<rparr>)
           in s2\<lparr>contentDisposables := contentDisposables s2 @ [CancelLoad lid]\<rparr>))"

definition loadContents :: "(editor \<Rightarrow> (nat \<times> editor) option) \<Rightarrow> editor \<Rightarrow> editor" where
  "loadContents loadingTask s = start_load loadingTask (empty_content (dispose_contentDisposables s))"

definition openReadme :: "services \<Rightarrow> extension \<Rightarrow> editor \<Rightarrow> editor" where
  "openReadme sv ext s = loadContents (openReadme_task sv) s"

definition openContributions :: "services \<Rightarrow> extension \<Rightarrow> editor \<Rightarrow> editor" where
  "openContributions sv ext s = loadContents (openContributions_task sv) s"

subsection \<open>The navigation bar and setInput\<close>

definition onNavbarChange :: "services \<Rightarrow> extension \<Rightarrow> string \<Rightarrow> editor \<Rightarrow> editor" where
  "onNavbarChange sv ext ident s =
     (if ident = NavbarSection_Readme then openReadme sv ext s
      else if ident = NavbarSection_Contributions then openContributions sv ext s
      else s)"

text \<open>\<open>this._onChange.fire(id)\<close>: every listener registered by \<open>setInput\<close> is called.\<close>

definition fire :: "services \<Rightarrow> string \<Rightarrow> editor \<Rightarrow> editor" where
  "fire sv ident s = fold (\<lambda>l. onNavbarChange sv (snd l) ident) (navbar_listeners s) s"

text \<open>The closure \<open>run\<close> of \<open>NavBar.push\<close>, lines 69 to 73.\<close>

definition navbar_run :: "services \<Rightarrow> string \<Rightarrow> editor \<Rightarrow> editor" where
  "navbar_run sv ident s =
     (let s1 = fire sv ident s
      in s1\<lparr>navbar_actions := map (\<lambda>a. a\<lparr>a_enabled := (a_id a \<noteq> ident)\<rparr>) (navbar_actions s1)\<rparr>)"

definition navbar_push :: "services \<Rightarrow> string \<Rightarrow> string \<Rightarrow> editor \<Rightarrow> editor" where
  "navbar_push sv ident label s =
     (let s1 = s\<lparr>navbar_actions := navbar_actions s @ [\<lparr>a_id = ident, a_label = label, a_enabled = True\<rparr>]\<rparr>
      in if length (navbar_actions s1) = 1 then navbar_run sv ident s1 else s1)"

definition navbar_clear :: "editor \<Rightarrow> editor" where
  "navbar_clear s = s\<lparr>navbar_actions := []\<rparr>"

text \<open>Line 241: the listener is bound to the extension and its disposable is pushed.\<close>

definition navbar_onChange :: "extension \<Rightarrow> editor \<Rightarrow> editor" where
  "navbar_onChange ext s =
     s\<lparr>navbar_listeners := navbar_listeners s @ [(next_id s, ext)],
       transientDisposables := transientDisposables s @ [NavListenerD (next_id s)],
       next_id := Suc (next_id s)\<rparr>"

text \<open>
  Lines 186 to 238 of \<open>setInput\<close>: the disposables of the previous input are disposed, the
  two caches are made anew for the extension, and the header is filled, which registers six
  disposables.
\<close>

definition new_input :: "services \<Rightarrow> extension \<Rightarrow> editor \<Rightarrow> editor" where
  "new_input sv ext s =
     (let s1 = (dispose (transientDisposables s) s)\<lparr>transientDisposables := []\<rparr>
      in s1\<lparr>inputs := Suc (inputs s1),
            extensionReadme :=
              Some \<lparr>c_task = ext, c_input = Suc (inputs s1), c_forgets = cache_forgets sv, c_promise = None\<rparr>,
            extensionManifest :=
              Some \<lparr>c_task = ext, c_input = Suc (inputs s1), c_forgets = cache_forgets sv, c_promise = None\<rparr>,
            transientDisposables :=
              [OtherD ''icon error'', OtherD ''install'', OtherD ''ratings'',
               OtherD ''enableAction'', OtherD ''updateAction'', OtherD ''installAction'']\<rparr>)"

text \<open>Lines 240 to 245: the navigation bar is rebuilt, and the content element emptied.\<close>

definition setInput :: "services \<Rightarrow> extension \<Rightarrow> editor \<Rightarrow> editor" where
  "setInput sv ext s =
     (let s4 = navbar_clear (new_input sv ext s);
          s5 = navbar_onChange ext s4;
          s6 = navbar_push sv NavbarSection_Readme (localize ''details'' ''Details'') s5;
          s7 = navbar_push sv NavbarSection_Contributions (localize ''contributions'' ''Contributions'') s6
      in s7\<lparr>content := []\<rparr>)"

subsection \<open>Events\<close>

text \<open>
  What happens to the editor: a new input, a click on a tab of the navigation bar, and the
  arrival of a fetch's outcome, which continues the loads that wait for it.

  Modelled from the spec: \<open>ActionBar\<close> (\<^verbatim>\<open>vs/base/browser/ui/actionbar\<close>) is not among the
  sources. A click reaches the closure \<open>run\<close> of an action (lines 69 to 73) only when the
  bar holds an action of that id and the action is enabled: line 71 disables the tab that
  is shown, and a click on a disabled tab does nothing.
\<close>

datatype event =
    SetInput extension
  | Click string
  | ReadmeArrives nat "error + string"
  | ManifestArrives nat "error + IExtensionManifest"

definition readme_arrives :: "services \<Rightarrow> nat \<Rightarrow> error + string \<Rightarrow> editor \<Rightarrow> editor" where
  "readme_arrives sv f r s =
     (if f < length (readme_promises s) \<and> readme_promises s ! f = None
      then (let s1 = s\<lparr>readme_promises := (readme_promises s)[f := Some r]\<rparr>
            in fold (continue_readme sv r) (waiting_on (ReadmeFetch f) s1) s1)
      else s)"

definition manifest_arrives :: "services \<Rightarrow> nat \<Rightarrow> error + IExtensionManifest \<Rightarrow> editor \<Rightarrow> editor" where
  "manifest_arrives sv f r s =
     (if f < length (manifest_promises s) \<and> manifest_promises s ! f = None
      then (let s1 = s\<lparr>manifest_promises := (manifest_promises s)[f := Some r]\<rparr>
            in fold (continue_manifest sv r) (waiting_on (ManifestFetch f) s1) s1)
      else s)"

definition step :: "services \<Rightarrow> editor \<Rightarrow> event \<Rightarrow> editor" where
  "step sv s ev =
     (case ev of
        SetInput ext \<Rightarrow> setInput sv ext s
      | Click ident \<Rightarrow>
          if ident \<in> set (map a_id (filter a_enabled (navbar_actions s)))
          then navbar_run sv ident s else s
      | ReadmeArrives f r \<Rightarrow> readme_arrives sv f r s
      | ManifestArrives f r \<Rightarrow> manifest_arrives sv f r s)"

definition run :: "services \<Rightarrow> event list \<Rightarrow> editor" where
  "run sv evs = foldl (step sv) initial evs"


section \<open>What the Commands table is to show\<close>

text \<open>
  The label that the keybinding service gives for an entry of \<open>keybindings\<close>, and, following
  the words of the claims, what a row aggregates for a command id: the title of its
  declaration (empty when it has none), the labels of the keybinding entries that name it
  and the contexts of the menu entries that name it, in the manifest's order.
\<close>

definition shown_keybindings :: "Command list \<Rightarrow> string multiset" where
  "shown_keybindings cs = mset (concat (map c_keybindings cs))"

definition keybinding_label :: "keybinding_services \<Rightarrow> IKeyBinding \<Rightarrow> string" where
  "keybinding_label ks u = getLabelFor ks (Keybinding (fromUserSettingsLabel ks (ik_key u)))"

definition declared_title :: "IExtensionContributions \<Rightarrow> string \<Rightarrow> string" where
  "declared_title c k =
     (case find (\<lambda>x. ic_command x = k) (or_empty (commands c)) of
        None \<Rightarrow> [] | Some x \<Rightarrow> ic_title x)"

definition menu_refs :: "(string \<times> IMenu list) list \<Rightarrow> (string \<times> string) list" where
  "menu_refs es = concat (map (\<lambda>e. map (\<lambda>m. (fst e, im_command m)) (snd e)) es)"

definition menu_contexts :: "(string \<times> string) list \<Rightarrow> string \<Rightarrow> string list" where
  "menu_contexts refs k = map fst (filter (\<lambda>p. snd p = k) refs)"

definition keybinding_labels :: "keybinding_services \<Rightarrow> IKeyBinding list \<Rightarrow> string \<Rightarrow> string list" where
  "keybinding_labels ks us k = map (keybinding_label ks) (filter (\<lambda>u. ik_command u = k) us)"

definition command_ids :: "IExtensionContributions \<Rightarrow> string list" where
  "command_ids c =
     map ic_command (or_empty (commands c))
     @ map snd (menu_refs (or_empty (menus c)))
     @ map ik_command (or_empty (keybindings c))"

text \<open>
  The invariants of the two loops of \<open>renderCommands\<close>: the dictionary points into the
  array; and, when no key met is inherited from \<^verbatim>\<open>Object.prototype\<close>, the dictionary is
  exactly the index of the rows by id, and every row holds what the entries seen so far
  (\<open>M\<close> of the menus, \<open>K\<close> of the keybindings) give for its id.
\<close>

definition wf_dictionary :: "Command list \<times> dictionary \<Rightarrow> bool" where
  "wf_dictionary st = ((\<forall>e \<in> set (own (snd st)). snd e < length (fst st))
      \<and> (\<forall>p. proto (snd st) = Some p \<longrightarrow> p < length (fst st)))"

definition clean :: "Command list \<times> dictionary \<Rightarrow> bool" where
  "clean st = (proto (snd st) = None \<and> distinct (map c_id (fst st))
     \<and> (\<forall>k i. map_of (own (snd st)) k = Some i \<longleftrightarrow> i < length (fst st) \<and> c_id (fst st ! i) = k))"

definition rows_inv :: "keybinding_services \<Rightarrow> IExtensionContributions \<Rightarrow> (string \<times> string) list \<Rightarrow> IKeyBinding list \<Rightarrow> Command list \<times> dictionary \<Rightarrow> bool" where
  "rows_inv ks c M K st = (clean st
     \<and> set (map c_id (fst st)) = set (map ic_command (or_empty (commands c))) \<union> set (map snd M) \<union> set (map ik_command K)
     \<and> (\<forall>r \<in> set (fst st). c_title r = declared_title c (c_id r)
            \<and> c_menus r = menu_contexts M (c_id r)
            \<and> c_keybindings r = keybinding_labels ks K (c_id r)))"

subsection \<open>Reading the rendered sections\<close>

fun node_children :: "node \<Rightarrow> node list" where
  "node_children (Element tag attrs children) = children"
| "node_children n = []"

fun node_text :: "node \<Rightarrow> string" where
  "node_text (TextNode s) = s"
| "node_text n = []"

definition first_text :: "node \<Rightarrow> string" where
  "first_text n = (case node_children n of [] \<Rightarrow> [] | t # ts \<Rightarrow> node_text t)"

text \<open>The text of a section's summary, and its entries: the rows below a table's header, or the items of a list.\<close>

definition summary_text :: "node \<Rightarrow> string" where
  "summary_text sec = (case node_children sec of [] \<Rightarrow> [] | sm # rest \<Rightarrow> first_text sm)"

definition section_entries :: "node \<Rightarrow> node list" where
  "section_entries sec =
     (case node_children sec of
        [sm, Element tag attrs children] \<Rightarrow> if tag = ''table'' then tl children else children
      | _ \<Rightarrow> [])"

text \<open>The shortcuts a row of the Commands table shows: the texts of the third cell's \<^verbatim>\<open>code\<close> elements.\<close>

definition row_shortcuts :: "node \<Rightarrow> string list" where
  "row_shortcuts row =
     (case node_children row of
        [c1, c2, c3, c4] \<Rightarrow> map first_text (node_children c3)
      | _ \<Rightarrow> [])"


section \<open>What a panel is to show\<close>

text \<open>
  Following the words of the claims, what each of the two sub-panels puts into the emptied
  content element, by the outcome of its fetch. The README panel: the webview (numbered
  \<open>w\<close>) with the document made of the parsed README, and the paragraph "No README
  available." when fetching, parsing or displaying fails. The contributions panel: the
  \<^verbatim>\<open>div.subcontent\<close> with the sections rendered from the manifest, and nothing when the
  manifest cannot be fetched.
\<close>

definition readme_panel :: "services \<Rightarrow> nat \<Rightarrow> error + string \<Rightarrow> node list" where
  "readme_panel sv w r =
     (case r of
        Inl e \<Rightarrow> [no_readme]
      | Inr md \<Rightarrow>
          (case marked_parse sv md of
             Inl e \<Rightarrow> [no_readme]
           | Inr html \<Rightarrow>
               (case webview_throws sv (renderBody (toUrl sv) html) of
                  None \<Rightarrow> [WebViewElement w [renderBody (toUrl sv) html]]
                | Some Construct \<Rightarrow> [no_readme]
                | Some Style \<Rightarrow> [WebViewElement w [], no_readme]
                | Some Contents \<Rightarrow> [WebViewElement w [], no_readme]
                | Some Listeners \<Rightarrow> [WebViewElement w [renderBody (toUrl sv) html], no_readme])))"

definition contributions_panel :: "services \<Rightarrow> error + IExtensionManifest \<Rightarrow> node list" where
  "contributions_panel sv r =
     (case r of
        Inl e \<Rightarrow> []
      | Inr manifest \<Rightarrow> [subcontent (fst (render_sections (keybindingService sv) manifest))])"


section \<open>Invariants of the editor\<close>

text \<open>
  A load is pending when it has been started and has neither continued nor been cancelled.
  The content element's children are told apart by the panel that makes them: the webview
  and the paragraph of the README panel, the \<^verbatim>\<open>div.subcontent\<close> of the contributions panel.
\<close>

definition pending :: "editor \<Rightarrow> nat \<Rightarrow> bool" where
  "pending s lid = (lid < length (loads s) \<and> l_status (loads s ! lid) = Pending)"

definition readme_node :: "node \<Rightarrow> bool" where
  "readme_node n = (case n of WebViewElement w cs \<Rightarrow> True | Element t a c \<Rightarrow> n = no_readme | TextNode x \<Rightarrow> False)"

definition contributions_node :: "node \<Rightarrow> bool" where
  "contributions_node n =
     (case n of Element t a c \<Rightarrow> t = ''div'' \<and> a = [(''class'', ''subcontent'')]
      | TextNode x \<Rightarrow> False | WebViewElement w cs \<Rightarrow> False)"

definition content_ok :: "node list \<Rightarrow> bool" where
  "content_ok c = (list_all readme_node c \<or> list_all contributions_node c)"

text \<open>
  What holds of the loads after every event: only the newest load can be pending, a pending
  load has its cancelling disposable registered, and nothing is shown while it is pending.
\<close>

definition inv_loads :: "editor \<Rightarrow> bool" where
  "inv_loads s =
     ((\<forall>lid. pending s lid \<longrightarrow>
          Suc lid = length (loads s) \<and> CancelLoad lid \<in> set (contentDisposables s) \<and> content s = [])
      \<and> content_ok (content s))"

text \<open>Disposing only ever turns pending loads into cancelled ones.\<close>

definition cancels :: "editor \<Rightarrow> editor \<Rightarrow> bool" where
  "cancels s s' =
     (length (loads s') = length (loads s)
      \<and> (\<forall>j < length (loads s). l_status (loads s' ! j) = l_status (loads s ! j)
             \<or> (l_status (loads s ! j) = Pending \<and> l_status (loads s' ! j) = Cancelled)))"

text \<open>
  No disposable of the content removes a listener of the navigation bar; and what a loading
  task may do: it adds one load, the newest, leaves the older loads and the navigation bar
  alone, and shows nothing while its load is pending.
\<close>

definition nav_free :: "disposable list \<Rightarrow> bool" where
  "nav_free ds = list_all (\<lambda>d. case d of NavListenerD n \<Rightarrow> False | _ \<Rightarrow> True) ds"

definition task_ok :: "(editor \<Rightarrow> (nat \<times> editor) option) \<Rightarrow> bool" where
  "task_ok task =
     (\<forall>s lid s'. task s = Some (lid, s') \<longrightarrow>
        lid = length (loads s) \<and> length (loads s') = Suc lid
        \<and> (\<forall>j < lid. loads s' ! j = loads s ! j)
        \<and> set (contentDisposables s) \<subseteq> set (contentDisposables s')
        \<and> (pending s' lid \<longrightarrow> content s' = content s \<and> contentDisposables s' = contentDisposables s)
        \<and> (content s = [] \<longrightarrow> content_ok (content s'))
        \<and> navbar_listeners s' = navbar_listeners s
        \<and> navbar_actions s' = navbar_actions s
        \<and> transientDisposables s' = transientDisposables s
        \<and> (nav_free (contentDisposables s) \<longrightarrow> nav_free (contentDisposables s')))"


definition load_keys :: "editor \<Rightarrow> (target \<times> nat) list" where
  "load_keys s = map (\<lambda>l. (l_target l, l_input l)) (loads s)"

definition cache_view :: "editor \<Rightarrow> nat list \<times> nat list \<times> nat \<times> (target \<times> nat) list \<times> Cache option \<times> Cache option" where
  "cache_view s = (getReadme_calls s, getManifest_calls s, inputs s, load_keys s, extensionReadme s, extensionManifest s)"




text \<open>
  No load has been cancelled while it was pending; as long as that is so, the caches are
  as \<open>inv_cache\<close> says.
\<close>

definition no_cancel :: "editor \<Rightarrow> bool" where
  "no_cancel s = list_all (\<lambda>l. l_status l \<noteq> Cancelled) (loads s)"


text \<open>
  What is known of the caches and the fetches: a cache holds a fetch that has been made;
  with \<open>p\<close>, both caches are there (an input has been set).
\<close>

definition fetch_view :: "editor \<Rightarrow> Cache option \<times> Cache option \<times> (error + string) option list \<times> (error + IExtensionManifest) option list" where
  "fetch_view s = (extensionReadme s, extensionManifest s, readme_promises s, manifest_promises s)"

definition valid_cache :: "Cache option \<Rightarrow> nat \<Rightarrow> bool" where
  "valid_cache co n =
     (case co of
        None \<Rightarrow> True
      | Some c \<Rightarrow> (case c_promise c of None \<Rightarrow> True | Some f \<Rightarrow> f < n))"

definition caches_ok :: "bool \<Rightarrow> editor \<Rightarrow> bool" where
  "caches_ok p s =
     ((p \<longrightarrow> extensionReadme s \<noteq> None \<and> extensionManifest s \<noteq> None)
      \<and> valid_cache (extensionReadme s) (length (readme_promises s))
      \<and> valid_cache (extensionManifest s) (length (manifest_promises s)))"

text \<open>Every listener of the navigation bar is removed by a disposable of the current input.\<close>

definition inv_nav :: "editor \<Rightarrow> bool" where
  "inv_nav s =
     (list_all (\<lambda>l. NavListenerD (fst l) \<in> set (transientDisposables s)) (navbar_listeners s)
      \<and> nav_free (contentDisposables s))"

text \<open>
  Following the words of the claim: fetching, parsing or displaying the README fails.
\<close>

definition readme_fails :: "services \<Rightarrow> error + string \<Rightarrow> bool" where
  "readme_fails sv r =
     (case r of
        Inl e \<Rightarrow> True
      | Inr md \<Rightarrow>
          (case marked_parse sv md of
             Inl e \<Rightarrow> True
           | Inr html \<Rightarrow> webview_throws sv (renderBody (toUrl sv) html) \<noteq> None))"

section \<open>Inputs the theorems are tried on\<close>

definition example_keybindingService :: keybinding_services where
  "example_keybindingService =
     \<lparr>fromUserSettingsLabel = length,
      getLabelFor = (\<lambda>k. case k of Keybinding n \<Rightarrow> ''key'' @ string_of_nat n)\<rparr>"

definition no_contributions :: IExtensionContributions where
  "no_contributions =
     \<lparr>commands = None, configuration = None, debuggers = None, jsonValidation = None,
      keybindings = None, menus = None, themes = None\<rparr>"

definition example_contributions :: IExtensionContributions where
  "example_contributions =
     no_contributions
       \<lparr>commands := Some [\<lparr>ic_command = ''a'', ic_title = ''Say A''\<rparr>],
        menus := Some [(''editor/title'', [\<lparr>im_command = ''a''\<rparr>, \<lparr>im_command = ''b''\<rparr>]),
                       (''explorer/context'', [\<lparr>im_command = ''b''\<rparr>])],
        keybindings := Some [\<lparr>ik_command = ''c'', ik_key = ''ctrl+k''\<rparr>,
                             \<lparr>ik_command = ''a'', ik_key = ''f1''\<rparr>]\<rparr>"

definition duplicate_declaration :: IExtensionContributions where
  "duplicate_declaration =
     no_contributions
       \<lparr>commands := Some [\<lparr>ic_command = ''a'', ic_title = ''First''\<rparr>,
                          \<lparr>ic_command = ''a'', ic_title = ''Second''\<rparr>]\<rparr>"

definition inherited_key_menu :: IExtensionContributions where
  "inherited_key_menu =
     no_contributions\<lparr>menus := Some [(''editor/title'', [\<lparr>im_command = ''constructor''\<rparr>])]\<rparr>"

definition inherited_key_and_theme :: IExtensionContributions where
  "inherited_key_and_theme =
     no_contributions
       \<lparr>keybindings := Some [\<lparr>ik_command = ''toString'', ik_key = ''f2''\<rparr>],
        themes := Some [\<lparr>t_label = ''Dark''\<rparr>]\<rparr>"

definition example_manifest :: IExtensionManifest where
  "example_manifest = \<lparr>contributes = Some example_contributions\<rparr>"

definition example_services :: services where
  "example_services =
     \<lparr>keybindingService = example_keybindingService, marked_parse = Inr,
      toUrl = ''markdown.css'', webview_throws = (\<lambda>body. None), cache_forgets = True\<rparr>"

definition example_extension :: extension where
  "example_extension = \<lparr>ext_name = ''example'', readme_ready = None, manifest_ready = None\<rparr>"





section \<open>Properties of renderBody\<close>

lemma renderBody_embeds_body:
  "sublist body (renderBody cssUrl body)
   \<and> length (renderBody cssUrl body) = length (renderBody cssUrl []) + length body
   \<and> take (length (renderBody_head cssUrl)) (renderBody cssUrl body) = renderBody_head cssUrl
   \<and> drop (length (renderBody_head cssUrl) + length body) (renderBody cssUrl body) = renderBody_tail"
proof -
  have "sublist body (renderBody cssUrl body)"
    unfolding renderBody_def by (rule sublist_appendI)
  then show ?thesis by (simp add: renderBody_def)
qed

section \<open>The loops of renderCommands\<close>

lemma forEach_invariant:
  assumes "forEach f xs s = Inr s'" and "P s"
    and "\<And>x t t'. x \<in> set xs \<Longrightarrow> P t \<Longrightarrow> f x t = Inr t' \<Longrightarrow> P t'"
  shows "P s'"
  using assms
proof (induction xs arbitrary: s)
  case Nil
  then show ?case by simp
next
  case (Cons x xs)
  from Cons.prems(1) obtain t where t: "f x s = Inr t" and rest: "forEach f xs t = Inr s'"
    by (auto split: sum.splits)
  have "P t" using Cons.prems(3) [of x s t] Cons.prems(2) t by simp
  moreover have "\<And>y u u'. y \<in> set xs \<Longrightarrow> P u \<Longrightarrow> f y u = Inr u' \<Longrightarrow> P u'"
    using Cons.prems(3) by (meson list.set_intros(2))
  ultimately show ?case using Cons.IH [OF rest] by blast
qed

lemma dictionary_get_Row:
  assumes "wf_dictionary (cs, d)" and "dictionary_get cs d k = Row i"
  shows "i < length cs"
  using assms
  by (auto simp: wf_dictionary_def dictionary_get_def string_slot_def
      split: option.splits if_splits dest!: map_of_SomeD)

lemma wf_dictionary_set:
  assumes "wf_dictionary (cs, d)"
  shows "wf_dictionary (cs @ [c], dictionary_set d k (length cs))"
  using assms by (auto simp: wf_dictionary_def dictionary_set_def less_Suc_eq)

lemma wf_dictionary_update:
  assumes "wf_dictionary (cs, d)"
  shows "wf_dictionary (cs[i := c], d)"
  using assms by (auto simp: wf_dictionary_def)

lemma shown_keybindings_snoc:
  "shown_keybindings (cs @ [c]) = shown_keybindings cs + mset (c_keybindings c)"
  by (simp add: shown_keybindings_def)

lemma shown_keybindings_update:
  assumes "i < length cs"
  shows "shown_keybindings (cs[i := c]) + mset (c_keybindings (cs ! i))
         = shown_keybindings cs + mset (c_keybindings c)"
  using assms
proof (induction cs arbitrary: i)
  case Nil
  then show ?case by simp
next
  case (Cons a cs)
  then show ?case
    by (cases i) (auto simp: shown_keybindings_def)
qed

lemma menu_step_keybindings:
  assumes "menu_step ctx menu st = Inr st'" and "wf_dictionary st"
  shows "wf_dictionary st' \<and> shown_keybindings (fst st') = shown_keybindings (fst st)"
proof -
  obtain cs d where st: "st = (cs, d)" by (cases st)
  show ?thesis
  proof (cases "dictionary_get cs d (im_command menu)")
    case Falsy
    with assms st show ?thesis
      by (auto simp: menu_step_def wf_dictionary_set shown_keybindings_snoc)
  next
    case (Row i)
    with assms st have i: "i < length cs" by (auto dest: dictionary_get_Row)
    from shown_keybindings_update [OF i, of "(cs ! i)\<lparr>c_menus := c_menus (cs ! i) @ [ctx]\<rparr>"]
    have "shown_keybindings (cs[i := (cs ! i)\<lparr>c_menus := c_menus (cs ! i) @ [ctx]\<rparr>]) = shown_keybindings cs"
      by simp
    with Row assms st show ?thesis
      by (auto simp: menu_step_def wf_dictionary_update)
  next
    case Other_truthy
    with assms st show ?thesis by (simp add: menu_step_def)
  qed
qed

lemma keybinding_step_keybindings:
  assumes "keybinding_step ks u st = Inr st'" and "wf_dictionary st"
  shows "wf_dictionary st' \<and> shown_keybindings (fst st') = shown_keybindings (fst st) + {#keybinding_label ks u#}"
proof -
  obtain cs d where st: "st = (cs, d)" by (cases st)
  show ?thesis
  proof (cases "dictionary_get cs d (ik_command u)")
    case Falsy
    with assms st show ?thesis
      by (auto simp: keybinding_step_def wf_dictionary_set shown_keybindings_snoc keybinding_label_def Let_def)
  next
    case (Row i)
    with assms st have i: "i < length cs" by (auto dest: dictionary_get_Row)
    from shown_keybindings_update [OF i, of "(cs ! i)\<lparr>c_keybindings := c_keybindings (cs ! i) @ [keybinding_label ks u]\<rparr>"]
    have "shown_keybindings (cs[i := (cs ! i)\<lparr>c_keybindings := c_keybindings (cs ! i) @ [keybinding_label ks u]\<rparr>])
          = shown_keybindings cs + {#keybinding_label ks u#}"
      by simp
    with Row assms st show ?thesis
      by (auto simp: keybinding_step_def wf_dictionary_update keybinding_label_def Let_def)
  next
    case Other_truthy
    with assms st show ?thesis by (simp add: keybinding_step_def Let_def)
  qed
qed

lemma menus_pass_keybindings:
  assumes "forEach (\<lambda>e. forEach (menu_step (fst e)) (snd e)) ms st = Inr st'" and "wf_dictionary st"
  shows "wf_dictionary st' \<and> shown_keybindings (fst st') = shown_keybindings (fst st)"
proof (rule forEach_invariant [OF assms(1), where P = "\<lambda>t. wf_dictionary t \<and> shown_keybindings (fst t) = shown_keybindings (fst st)"])
  show "wf_dictionary st \<and> shown_keybindings (fst st) = shown_keybindings (fst st)"
    using assms(2) by simp
next
  fix x t t'
  assume t: "wf_dictionary t \<and> shown_keybindings (fst t) = shown_keybindings (fst st)"
    and run: "forEach (menu_step (fst x)) (snd x) t = Inr t'"
  show "wf_dictionary t' \<and> shown_keybindings (fst t') = shown_keybindings (fst st)"
    by (rule forEach_invariant [OF run, where P = "\<lambda>t. wf_dictionary t \<and> shown_keybindings (fst t) = shown_keybindings (fst st)"])
       (use t in \<open>auto dest: menu_step_keybindings\<close>)
qed

lemma keybindings_pass_keybindings:
  assumes "forEach (keybinding_step ks) us st = Inr st'" and "wf_dictionary st"
  shows "wf_dictionary st' \<and> shown_keybindings (fst st') = shown_keybindings (fst st) + mset (map (keybinding_label ks) us)"
  using assms
proof (induction us arbitrary: st)
  case Nil
  then show ?case by simp
next
  case (Cons u us)
  from Cons.prems obtain t where t: "keybinding_step ks u st = Inr t"
    and rest: "forEach (keybinding_step ks) us t = Inr st'"
    by (auto split: sum.splits)
  from keybinding_step_keybindings [OF t Cons.prems(2)] Cons.IH [OF rest]
  show ?case by simp
qed

lemma wf_allCommands_fold:
  assumes "\<forall>i \<in> set js. i < length cs" and "wf_dictionary (cs, d)"
  shows "wf_dictionary (cs, fold (\<lambda>i r. dictionary_set r (c_id (cs ! i)) i) js d)"
  using assms
proof (induction js arbitrary: d)
  case Nil
  then show ?case by simp
next
  case (Cons j js)
  have "wf_dictionary (cs, dictionary_set d (c_id (cs ! j)) j)"
    using Cons.prems by (auto simp: wf_dictionary_def dictionary_set_def)
  with Cons show ?case by simp
qed

lemma wf_allCommands_of: "wf_dictionary (cs, allCommands_of cs)"
  unfolding allCommands_of_def
  by (rule wf_allCommands_fold) (auto simp: wf_dictionary_def)

lemma shown_keybindings_declared: "shown_keybindings (declared_commands c) = {#}"
  by (simp add: shown_keybindings_def declared_commands_def)

lemma renderCommands_commands_keybindings:
  assumes "renderCommands_commands ks c = Inr rows"
  shows "shown_keybindings rows = mset (map (keybinding_label ks) (or_empty (keybindings c)))"
proof -
  let ?st0 = "(declared_commands c, allCommands_of (declared_commands c))"
  from assms obtain st1 st2 where
    m: "forEach (\<lambda>e. forEach (menu_step (fst e)) (snd e)) (or_empty (menus c)) ?st0 = Inr st1"
    and k: "forEach (keybinding_step ks) (or_empty (keybindings c)) st1 = Inr st2"
    and rows: "rows = fst st2"
    by (auto simp: renderCommands_commands_def Let_def split: sum.splits)
  from menus_pass_keybindings [OF m wf_allCommands_of]
  have "wf_dictionary st1" and "shown_keybindings (fst st1) = {#}"
    by (simp_all add: shown_keybindings_declared)
  with keybindings_pass_keybindings [OF k] rows show ?thesis by simp
qed

lemma clean_get_Row:
  assumes "clean (cs, d)" and "i < length cs"
  shows "dictionary_get cs d (c_id (cs ! i)) = Row i"
proof -
  from assms have "map_of (own d) (c_id (cs ! i)) = Some i" by (simp add: clean_def)
  then show ?thesis by (simp add: dictionary_get_def)
qed

lemma clean_get_Falsy:
  assumes "clean (cs, d)" and "k \<notin> set (map c_id cs)" and "k \<notin> set object_prototype_keys"
  shows "dictionary_get cs d k = Falsy"
proof -
  have "map_of (own d) k = None"
  proof (cases "map_of (own d) k")
    case (Some i)
    with assms(1) have "i < length cs \<and> c_id (cs ! i) = k" by (simp add: clean_def)
    with assms(2) show ?thesis by auto
  qed simp
  with assms show ?thesis by (simp add: dictionary_get_def clean_def)
qed

lemma clean_snoc:
  assumes "clean (cs, d)" and "k \<notin> set (map c_id cs)" and "k \<notin> set object_prototype_keys"
    and "c_id r = k"
  shows "clean (cs @ [r], dictionary_set d k (length cs))"
proof -
  have k: "k \<noteq> ''__proto__''" using assms(3) by (auto simp: object_prototype_keys_def)
  have "\<And>k' i. map_of ((k, length cs) # own d) k' = Some i \<longleftrightarrow> i < Suc (length cs) \<and> c_id ((cs @ [r]) ! i) = k'"
  proof -
    fix k' i
    show "map_of ((k, length cs) # own d) k' = Some i \<longleftrightarrow> i < Suc (length cs) \<and> c_id ((cs @ [r]) ! i) = k'"
    proof (cases "k' = k")
      case True
      have "\<And>j. j < length cs \<Longrightarrow> c_id (cs ! j) \<noteq> k" using assms(2) by auto
      with True assms(4) show ?thesis by (auto simp: nth_append less_Suc_eq)
    next
      case False
      with assms(1,4) show ?thesis by (auto simp: clean_def nth_append less_Suc_eq)
    qed
  qed
  with assms k show ?thesis by (simp add: clean_def dictionary_set_def)
qed

lemma clean_update:
  assumes "clean (cs, d)" and "c_id r = c_id (cs ! i)"
  shows "clean (cs[i := r], d)"
proof -
  have ids: "map c_id (cs[i := r]) = map c_id cs"
    using assms(2) by (metis list_update_id map_update)
  have "\<And>j. j < length cs \<Longrightarrow> c_id (cs[i := r] ! j) = c_id (cs ! j)"
  proof -
    fix j assume "j < length cs"
    then show "c_id (cs[i := r] ! j) = c_id (cs ! j)"
      using assms(2) by (cases "i = j") simp_all
  qed
  with assms(1) ids show ?thesis by (auto simp: clean_def)
qed

lemma rows_distinct_unique:
  assumes "distinct (map c_id cs)" and "i < length cs" and "r \<in> set cs" and "c_id r = c_id (cs ! i)"
  shows "r = cs ! i"
proof -
  from assms(3) obtain j where j: "j < length cs" "cs ! j = r" by (auto simp: in_set_conv_nth)
  have "\<forall>a<length cs. \<forall>b<length cs. a \<noteq> b \<longrightarrow> c_id (cs ! a) \<noteq> c_id (cs ! b)"
    using assms(1) by (simp add: distinct_conv_nth)
  with assms(2,4) j have "j = i" by metis
  with j show ?thesis by simp
qed

lemma menu_contexts_snoc:
  "menu_contexts (M @ [(ctx, k)]) k' = menu_contexts M k' @ (if k' = k then [ctx] else [])"
  by (simp add: menu_contexts_def)

lemma keybinding_labels_snoc:
  "keybinding_labels ks (K @ [u]) k' = keybinding_labels ks K k' @ (if k' = ik_command u then [keybinding_label ks u] else [])"
  by (simp add: keybinding_labels_def)

lemma menu_contexts_fresh:
  assumes "k \<notin> set (map snd M)"
  shows "menu_contexts M k = []"
  using assms by (auto simp: menu_contexts_def filter_empty_conv)

lemma keybinding_labels_fresh:
  assumes "k \<notin> set (map ik_command K)"
  shows "keybinding_labels ks K k = []"
  using assms by (auto simp: keybinding_labels_def filter_empty_conv)

lemma declared_title_fresh:
  assumes "k \<notin> set (map ic_command (or_empty (commands c)))"
  shows "declared_title c k = []"
proof -
  have "find (\<lambda>x. ic_command x = k) (or_empty (commands c)) = None"
    using assms by (auto simp: find_None_iff)
  then show ?thesis by (simp add: declared_title_def)
qed

lemma menu_step_rows:
  assumes inv: "rows_inv ks c M K st" and k: "im_command menu \<notin> set object_prototype_keys"
  shows "\<exists>st'. menu_step ctx menu st = Inr st' \<and> rows_inv ks c (M @ [(ctx, im_command menu)]) K st'"
proof -
  obtain cs d where st: "st = (cs, d)" by (cases st)
  let ?k = "im_command menu"
  from inv st have cl: "clean (cs, d)" and di: "distinct (map c_id cs)"
    by (simp_all add: rows_inv_def clean_def)
  show ?thesis
  proof (cases "?k \<in> set (map c_id cs)")
    case False
    let ?r = "\<lparr>c_id = ?k, c_title = [], c_keybindings = [], c_menus = [ctx]\<rparr>"
    have get: "dictionary_get cs d ?k = Falsy" by (rule clean_get_Falsy [OF cl False k])
    have step: "menu_step ctx menu st = Inr (cs @ [?r], dictionary_set d ?k (length cs))"
      using get st by (simp add: menu_step_def)
    have fresh: "?k \<notin> set (map ic_command (or_empty (commands c)))" "?k \<notin> set (map snd M)"
      "?k \<notin> set (map ik_command K)"
      using inv st False by (auto simp: rows_inv_def)
    have new: "c_title ?r = declared_title c ?k \<and> c_menus ?r = menu_contexts (M @ [(ctx, ?k)]) ?k
        \<and> c_keybindings ?r = keybinding_labels ks K ?k"
      using fresh by (simp add: declared_title_fresh menu_contexts_snoc menu_contexts_fresh keybinding_labels_fresh)
    have old: "\<And>r. r \<in> set cs \<Longrightarrow> c_menus r = menu_contexts (M @ [(ctx, ?k)]) (c_id r)"
    proof -
      fix r assume r: "r \<in> set cs"
      then have "c_id r \<noteq> ?k" using False by force
      with inv st r show "c_menus r = menu_contexts (M @ [(ctx, ?k)]) (c_id r)"
        by (simp add: rows_inv_def menu_contexts_snoc)
    qed
    have "rows_inv ks c (M @ [(ctx, ?k)]) K (cs @ [?r], dictionary_set d ?k (length cs))"
      unfolding rows_inv_def
    proof (intro conjI ballI)
      show "clean (cs @ [?r], dictionary_set d ?k (length cs))"
        by (rule clean_snoc [OF cl False k]) simp
      show "set (map c_id (fst (cs @ [?r], dictionary_set d ?k (length cs))))
          = set (map ic_command (or_empty (commands c))) \<union> set (map snd (M @ [(ctx, ?k)])) \<union> set (map ik_command K)"
        using inv st by (auto simp: rows_inv_def)
    next
      fix r assume "r \<in> set (fst (cs @ [?r], dictionary_set d ?k (length cs)))"
      then have r: "r \<in> set cs \<or> r = ?r" by auto
      show "c_title r = declared_title c (c_id r)" using r inv st new by (auto simp: rows_inv_def)
      show "c_menus r = menu_contexts (M @ [(ctx, ?k)]) (c_id r)" using r old new by auto
      show "c_keybindings r = keybinding_labels ks K (c_id r)" using r inv st new by (auto simp: rows_inv_def)
    qed
    with step show ?thesis by blast
  next
    case True
    then obtain i where i: "i < length cs" "c_id (cs ! i) = ?k"
      by (auto simp: in_set_conv_nth)
    let ?r = "(cs ! i)\<lparr>c_menus := c_menus (cs ! i) @ [ctx]\<rparr>"
    have get: "dictionary_get cs d ?k = Row i" using clean_get_Row [OF cl i(1)] i(2) by simp
    have step: "menu_step ctx menu st = Inr (cs[i := ?r], d)"
      using get st by (simp add: menu_step_def)
    have mem: "cs ! i \<in> set cs" using i(1) by simp
    have new: "c_title ?r = declared_title c ?k \<and> c_menus ?r = menu_contexts (M @ [(ctx, ?k)]) ?k
        \<and> c_keybindings ?r = keybinding_labels ks K ?k \<and> c_id ?r = ?k"
      using inv st mem i(2) by (simp add: rows_inv_def menu_contexts_snoc)
    have "rows_inv ks c (M @ [(ctx, ?k)]) K (cs[i := ?r], d)"
      unfolding rows_inv_def
    proof (intro conjI ballI)
      show "clean (cs[i := ?r], d)" by (rule clean_update [OF cl]) simp
      have "map c_id (cs[i := ?r]) = map c_id cs" by (metis new i(2) list_update_id map_update)
      then show "set (map c_id (fst (cs[i := ?r], d)))
          = set (map ic_command (or_empty (commands c))) \<union> set (map snd (M @ [(ctx, ?k)])) \<union> set (map ik_command K)"
        using inv st True by (auto simp: rows_inv_def)
    next
      fix r assume "r \<in> set (fst (cs[i := ?r], d))"
      then obtain j where j: "j < length cs" "r = cs[i := ?r] ! j"
        by (auto simp: in_set_conv_nth)
      have all: "c_title r = declared_title c (c_id r)
          \<and> c_menus r = menu_contexts (M @ [(ctx, ?k)]) (c_id r)
          \<and> c_keybindings r = keybinding_labels ks K (c_id r)"
      proof (cases "j = i")
        case True
        with j i(1) have "r = ?r" by simp
        with new show ?thesis by simp
      next
        case False
        with j have r: "r = cs ! j" by simp
        have "\<forall>a<length cs. \<forall>b<length cs. a \<noteq> b \<longrightarrow> c_id (cs ! a) \<noteq> c_id (cs ! b)"
          using di by (simp add: distinct_conv_nth)
        with False j(1) i have ne: "c_id r \<noteq> ?k" unfolding r by metis
        have "r \<in> set cs" using r j(1) by simp
        with inv st ne show ?thesis by (simp add: rows_inv_def menu_contexts_snoc)
      qed
      show "c_title r = declared_title c (c_id r)" using all by simp
      show "c_menus r = menu_contexts (M @ [(ctx, ?k)]) (c_id r)" using all by simp
      show "c_keybindings r = keybinding_labels ks K (c_id r)" using all by simp
    qed
    with step show ?thesis by blast
  qed
qed

lemma keybinding_step_rows:
  assumes inv: "rows_inv ks c M K st" and k: "ik_command u \<notin> set object_prototype_keys"
  shows "\<exists>st'. keybinding_step ks u st = Inr st' \<and> rows_inv ks c M (K @ [u]) st'"
proof -
  obtain cs d where st: "st = (cs, d)" by (cases st)
  let ?k = "ik_command u"
  let ?key = "keybinding_label ks u"
  from inv st have cl: "clean (cs, d)" and di: "distinct (map c_id cs)"
    by (simp_all add: rows_inv_def clean_def)
  show ?thesis
  proof (cases "?k \<in> set (map c_id cs)")
    case False
    let ?r = "\<lparr>c_id = ?k, c_title = [], c_keybindings = [?key], c_menus = []\<rparr>"
    have get: "dictionary_get cs d ?k = Falsy" by (rule clean_get_Falsy [OF cl False k])
    have step: "keybinding_step ks u st = Inr (cs @ [?r], dictionary_set d ?k (length cs))"
      using get st by (simp add: keybinding_step_def keybinding_label_def Let_def)
    have fresh: "?k \<notin> set (map ic_command (or_empty (commands c)))" "?k \<notin> set (map snd M)"
      "?k \<notin> set (map ik_command K)"
      using inv st False by (auto simp: rows_inv_def)
    have new: "c_title ?r = declared_title c ?k \<and> c_menus ?r = menu_contexts M ?k
        \<and> c_keybindings ?r = keybinding_labels ks (K @ [u]) ?k"
      using fresh by (simp add: declared_title_fresh keybinding_labels_snoc menu_contexts_fresh keybinding_labels_fresh)
    have old: "\<And>r. r \<in> set cs \<Longrightarrow> c_keybindings r = keybinding_labels ks (K @ [u]) (c_id r)"
    proof -
      fix r assume r: "r \<in> set cs"
      then have "c_id r \<noteq> ?k" using False by force
      with inv st r show "c_keybindings r = keybinding_labels ks (K @ [u]) (c_id r)"
        by (simp add: rows_inv_def keybinding_labels_snoc)
    qed
    have "rows_inv ks c M (K @ [u]) (cs @ [?r], dictionary_set d ?k (length cs))"
      unfolding rows_inv_def
    proof (intro conjI ballI)
      show "clean (cs @ [?r], dictionary_set d ?k (length cs))"
        by (rule clean_snoc [OF cl False k]) simp
      show "set (map c_id (fst (cs @ [?r], dictionary_set d ?k (length cs))))
          = set (map ic_command (or_empty (commands c))) \<union> set (map snd M) \<union> set (map ik_command (K @ [u]))"
        using inv st by (auto simp: rows_inv_def)
    next
      fix r assume "r \<in> set (fst (cs @ [?r], dictionary_set d ?k (length cs)))"
      then have r: "r \<in> set cs \<or> r = ?r" by auto
      show "c_title r = declared_title c (c_id r)" using r inv st new by (auto simp: rows_inv_def)
      show "c_menus r = menu_contexts M (c_id r)" using r inv st new by (auto simp: rows_inv_def)
      show "c_keybindings r = keybinding_labels ks (K @ [u]) (c_id r)" using r old new by auto
    qed
    with step show ?thesis by blast
  next
    case True
    then obtain i where i: "i < length cs" "c_id (cs ! i) = ?k"
      by (auto simp: in_set_conv_nth)
    let ?r = "(cs ! i)\<lparr>c_keybindings := c_keybindings (cs ! i) @ [?key]\<rparr>"
    have get: "dictionary_get cs d ?k = Row i" using clean_get_Row [OF cl i(1)] i(2) by simp
    have step: "keybinding_step ks u st = Inr (cs[i := ?r], d)"
      using get st by (simp add: keybinding_step_def keybinding_label_def Let_def)
    have mem: "cs ! i \<in> set cs" using i(1) by simp
    have new: "c_title ?r = declared_title c ?k \<and> c_menus ?r = menu_contexts M ?k
        \<and> c_keybindings ?r = keybinding_labels ks (K @ [u]) ?k \<and> c_id ?r = ?k"
      using inv st mem i(2) by (simp add: rows_inv_def keybinding_labels_snoc)
    have "rows_inv ks c M (K @ [u]) (cs[i := ?r], d)"
      unfolding rows_inv_def
    proof (intro conjI ballI)
      show "clean (cs[i := ?r], d)" by (rule clean_update [OF cl]) simp
      have "map c_id (cs[i := ?r]) = map c_id cs" by (metis new i(2) list_update_id map_update)
      then show "set (map c_id (fst (cs[i := ?r], d)))
          = set (map ic_command (or_empty (commands c))) \<union> set (map snd M) \<union> set (map ik_command (K @ [u]))"
        using inv st True by (auto simp: rows_inv_def)
    next
      fix r assume "r \<in> set (fst (cs[i := ?r], d))"
      then obtain j where j: "j < length cs" "r = cs[i := ?r] ! j"
        by (auto simp: in_set_conv_nth)
      have all: "c_title r = declared_title c (c_id r)
          \<and> c_menus r = menu_contexts M (c_id r)
          \<and> c_keybindings r = keybinding_labels ks (K @ [u]) (c_id r)"
      proof (cases "j = i")
        case True
        with j i(1) have "r = ?r" by simp
        with new show ?thesis by simp
      next
        case False
        with j have r: "r = cs ! j" by simp
        have "\<forall>a<length cs. \<forall>b<length cs. a \<noteq> b \<longrightarrow> c_id (cs ! a) \<noteq> c_id (cs ! b)"
          using di by (simp add: distinct_conv_nth)
        with False j(1) i have ne: "c_id r \<noteq> ?k" unfolding r by metis
        have "r \<in> set cs" using r j(1) by simp
        with inv st ne show ?thesis by (simp add: rows_inv_def keybinding_labels_snoc)
      qed
      show "c_title r = declared_title c (c_id r)" using all by simp
      show "c_menus r = menu_contexts M (c_id r)" using all by simp
      show "c_keybindings r = keybinding_labels ks (K @ [u]) (c_id r)" using all by simp
    qed
    with step show ?thesis by blast
  qed
qed

lemma menu_entry_rows:
  assumes "rows_inv ks c M K st" and "\<forall>m \<in> set ms. im_command m \<notin> set object_prototype_keys"
  shows "\<exists>st'. forEach (menu_step ctx) ms st = Inr st'
           \<and> rows_inv ks c (M @ map (\<lambda>m. (ctx, im_command m)) ms) K st'"
  using assms
proof (induction ms arbitrary: M st)
  case Nil
  then show ?case by simp
next
  case (Cons m ms)
  from menu_step_rows [OF Cons.prems(1), of m ctx] Cons.prems(2)
  obtain t where t: "menu_step ctx m st = Inr t" "rows_inv ks c (M @ [(ctx, im_command m)]) K t"
    by auto
  from Cons.IH [OF t(2)] Cons.prems(2) t(1) show ?case by simp
qed

lemma menus_rows:
  assumes "rows_inv ks c M K st" and "\<forall>k \<in> set (map snd (menu_refs es)). k \<notin> set object_prototype_keys"
  shows "\<exists>st'. forEach (\<lambda>e. forEach (menu_step (fst e)) (snd e)) es st = Inr st'
           \<and> rows_inv ks c (M @ menu_refs es) K st'"
  using assms
proof (induction es arbitrary: M st)
  case Nil
  then show ?case by (simp add: menu_refs_def)
next
  case (Cons e es)
  have here: "\<forall>m \<in> set (snd e). im_command m \<notin> set object_prototype_keys"
    and rest: "\<forall>k \<in> set (map snd (menu_refs es)). k \<notin> set object_prototype_keys"
    using Cons.prems(2) by (auto simp: menu_refs_def)
  from menu_entry_rows [OF Cons.prems(1) here, of "fst e"]
  obtain t where t: "forEach (menu_step (fst e)) (snd e) st = Inr t"
    "rows_inv ks c (M @ map (\<lambda>m. (fst e, im_command m)) (snd e)) K t"
    by auto
  have "menu_refs (e # es) = map (\<lambda>m. (fst e, im_command m)) (snd e) @ menu_refs es"
    by (simp add: menu_refs_def)
  with Cons.IH [OF t(2) rest] t(1) show ?case by simp
qed

lemma keybindings_rows:
  assumes "rows_inv ks c M K st" and "\<forall>u \<in> set us. ik_command u \<notin> set object_prototype_keys"
  shows "\<exists>st'. forEach (keybinding_step ks) us st = Inr st' \<and> rows_inv ks c M (K @ us) st'"
  using assms
proof (induction us arbitrary: K st)
  case Nil
  then show ?case by simp
next
  case (Cons u us)
  from keybinding_step_rows [OF Cons.prems(1), of u] Cons.prems(2)
  obtain t where t: "keybinding_step ks u st = Inr t" "rows_inv ks c M (K @ [u]) t"
    by auto
  from Cons.IH [OF t(2)] Cons.prems(2) t(1) show ?case by simp
qed

lemma allCommands_prefix:
  assumes "distinct (map c_id cs)" and "\<forall>i < length cs. c_id (cs ! i) \<noteq> ''__proto__''"
    and "n \<le> length cs"
  shows "proto (fold (\<lambda>i r. dictionary_set r (c_id (cs ! i)) i) [0 ..< n] \<lparr>own = [], proto = None\<rparr>) = None
       \<and> (\<forall>k i. map_of (own (fold (\<lambda>i r. dictionary_set r (c_id (cs ! i)) i) [0 ..< n] \<lparr>own = [], proto = None\<rparr>)) k = Some i
             \<longleftrightarrow> i < n \<and> c_id (cs ! i) = k)"
  using assms(3)
proof (induction n)
  case 0
  then show ?case by simp
next
  case (Suc n)
  let ?d = "fold (\<lambda>i r. dictionary_set r (c_id (cs ! i)) i) [0 ..< n] \<lparr>own = [], proto = None\<rparr>"
  from Suc have ih: "proto ?d = None" "\<And>k i. map_of (own ?d) k = Some i \<longleftrightarrow> i < n \<and> c_id (cs ! i) = k"
    by simp_all
  have n: "n < length cs" using Suc.prems by simp
  have np: "c_id (cs ! n) \<noteq> ''__proto__''" using assms(2) n by simp
  have uniq: "\<And>i. i < n \<Longrightarrow> c_id (cs ! i) \<noteq> c_id (cs ! n)"
    using assms(1) n by (simp add: distinct_conv_nth)
  have "\<And>k i. map_of ((c_id (cs ! n), n) # own ?d) k = Some i \<longleftrightarrow> i < Suc n \<and> c_id (cs ! i) = k"
    using ih(2) uniq by (auto simp: less_Suc_eq)
  with ih(1) np show ?case by (simp add: dictionary_set_def)
qed

lemma clean_allCommands_of:
  assumes "distinct (map c_id cs)" and "\<forall>i < length cs. c_id (cs ! i) \<noteq> ''__proto__''"
  shows "clean (cs, allCommands_of cs)"
  using allCommands_prefix [OF assms, of "length cs"] assms(1)
  by (simp add: clean_def allCommands_of_def)

lemma find_distinct_key:
  assumes "distinct (map f xs)" and "x \<in> set xs"
  shows "find (\<lambda>y. f y = f x) xs = Some x"
  using assms by (induction xs) auto

lemma rows_inv_declared:
  assumes "distinct (map ic_command (or_empty (commands c)))"
    and "\<forall>k \<in> set (map ic_command (or_empty (commands c))). k \<notin> set object_prototype_keys"
  shows "rows_inv ks c [] [] (declared_commands c, allCommands_of (declared_commands c))"
proof -
  have ids: "map c_id (declared_commands c) = map ic_command (or_empty (commands c))"
    by (simp add: declared_commands_def comp_def)
  have np: "\<forall>i < length (declared_commands c). c_id (declared_commands c ! i) \<noteq> ''__proto__''"
  proof (intro allI impI)
    fix i assume "i < length (declared_commands c)"
    then have "c_id (declared_commands c ! i) \<in> set (map c_id (declared_commands c))"
      by (metis length_map nth_map nth_mem)
    with assms(2) ids show "c_id (declared_commands c ! i) \<noteq> ''__proto__''"
      by (auto simp: object_prototype_keys_def)
  qed
  have cl: "clean (declared_commands c, allCommands_of (declared_commands c))"
    by (rule clean_allCommands_of) (use assms(1) ids np in simp_all)
  have rows: "\<And>r. r \<in> set (declared_commands c) \<Longrightarrow>
      c_title r = declared_title c (c_id r) \<and> c_menus r = [] \<and> c_keybindings r = []"
  proof -
    fix r assume "r \<in> set (declared_commands c)"
    then obtain x where x: "x \<in> set (or_empty (commands c))"
      "r = \<lparr>c_id = ic_command x, c_title = ic_title x, c_keybindings = [], c_menus = []\<rparr>"
      by (auto simp: declared_commands_def)
    from find_distinct_key [OF assms(1) x(1)] x(2)
    show "c_title r = declared_title c (c_id r) \<and> c_menus r = [] \<and> c_keybindings r = []"
      by (simp add: declared_title_def)
  qed
  show ?thesis
    unfolding rows_inv_def using cl ids rows
    by (simp add: menu_contexts_def keybinding_labels_def)
qed

lemma renderCommands_commands_rows:
  assumes "distinct (map ic_command (or_empty (commands c)))"
    and "\<forall>k \<in> set (command_ids c). k \<notin> set object_prototype_keys"
  shows "\<exists>rows. renderCommands_commands ks c = Inr rows
      \<and> distinct (map c_id rows)
      \<and> set (map c_id rows) = set (command_ids c)
      \<and> (\<forall>r \<in> set rows. c_title r = declared_title c (c_id r)
            \<and> c_menus r = menu_contexts (menu_refs (or_empty (menus c))) (c_id r)
            \<and> c_keybindings r = keybinding_labels ks (or_empty (keybindings c)) (c_id r))"
proof -
  let ?st0 = "(declared_commands c, allCommands_of (declared_commands c))"
  have h1: "\<forall>k \<in> set (map ic_command (or_empty (commands c))). k \<notin> set object_prototype_keys"
    and h2: "\<forall>k \<in> set (map snd (menu_refs (or_empty (menus c)))). k \<notin> set object_prototype_keys"
    and h3: "\<forall>u \<in> set (or_empty (keybindings c)). ik_command u \<notin> set object_prototype_keys"
    using assms(2) by (auto simp: command_ids_def)
  from menus_rows [OF rows_inv_declared [OF assms(1) h1], of "or_empty (menus c)" ks] h2
  obtain st1 where st1: "forEach (\<lambda>e. forEach (menu_step (fst e)) (snd e)) (or_empty (menus c)) ?st0 = Inr st1"
    "rows_inv ks c (menu_refs (or_empty (menus c))) [] st1"
    by auto
  from keybindings_rows [OF st1(2) h3]
  obtain st2 where st2: "forEach (keybinding_step ks) (or_empty (keybindings c)) st1 = Inr st2"
    "rows_inv ks c (menu_refs (or_empty (menus c))) (or_empty (keybindings c)) st2"
    by auto
  have "renderCommands_commands ks c = Inr (fst st2)"
    using st1(1) st2(1) by (simp add: renderCommands_commands_def Let_def)
  moreover have "distinct (map c_id (fst st2))" using st2(2) by (simp add: rows_inv_def clean_def)
  moreover have "set (map c_id (fst st2)) = set (command_ids c)"
    using st2(2) by (auto simp: rows_inv_def command_ids_def)
  moreover have "\<forall>r \<in> set (fst st2). c_title r = declared_title c (c_id r)
            \<and> c_menus r = menu_contexts (menu_refs (or_empty (menus c))) (c_id r)
            \<and> c_keybindings r = keybinding_labels ks (or_empty (keybindings c)) (c_id r)"
    using st2(2) by (simp add: rows_inv_def)
  ultimately show ?thesis by blast
qed


section \<open>The rendered Commands table\<close>

lemma section_entries_table [simp]:
  "section_entries (details_section s (dollar ''table'' [] (h # rows))) = rows"
  by (simp add: section_entries_def details_section_def dollar_def)

lemma section_entries_ul [simp]:
  "section_entries (details_section s (dollar ''ul'' [] items)) = items"
  by (simp add: section_entries_def details_section_def dollar_def)

lemma summary_text_details [simp]:
  "summary_text (details_section s body) = s"
  by (simp add: summary_text_def first_text_def details_section_def dollar_def)

lemma row_shortcuts_row [simp]:
  "row_shortcuts (renderCommands_row r) = c_keybindings r"
  by (simp add: row_shortcuts_def renderCommands_row_def dollar_def first_text_def comp_def)


text \<open>
  C6: whatever Commands table is rendered, the shortcuts its rows show are, entry for entry
  of the manifest's \<open>keybindings\<close>, the label that \<open>getLabelFor\<close> gives for the
  \<open>Keybinding\<close> built from what \<open>fromUserSettingsLabel\<close> parses of the entry's key
  string; nothing else is shown and no entry is left out.
\<close>

theorem C6_shortcuts_come_from_keybinding_service:
  assumes "contributes manifest = Some c"
    and "renderCommands ks container manifest = Inr container'"
  shows "mset (concat (map row_shortcuts
            (concat (map section_entries (drop (length container) container')))))
         = mset (map (keybinding_label ks) (or_empty (keybindings c)))"
proof -
  from assms obtain rows where rows: "renderCommands_commands ks c = Inr rows"
    by (auto simp: renderCommands_def split: sum.splits)
  have shown: "shown_keybindings rows = mset (map (keybinding_label ks) (or_empty (keybindings c)))"
    by (rule renderCommands_commands_keybindings [OF rows])
  show ?thesis
  proof (cases "rows = []")
    case True
    with assms rows have "container' = container" by (simp add: renderCommands_def)
    with shown True show ?thesis by (simp add: shown_keybindings_def)
  next
    case False
    with assms rows obtain s h where "container' = container @ [details_section s (dollar ''table'' [] (h # map renderCommands_row rows))]"
      by (auto simp: renderCommands_def append_node_def)
    then have "concat (map row_shortcuts (concat (map section_entries (drop (length container) container'))))
        = concat (map c_keybindings rows)"
      by (simp add: comp_def)
    with shown show ?thesis by (simp add: shown_keybindings_def)
  qed
qed

theorem C6_witness:
  "\<exists>container'.
     renderCommands example_keybindingService [] example_manifest = Inr container'
     \<and> or_empty (keybindings example_contributions) \<noteq> []
     \<and> mset (concat (map row_shortcuts (concat (map section_entries (drop (length ([] :: node list)) container')))))
       = mset (map (keybinding_label example_keybindingService) (or_empty (keybindings example_contributions)))"
proof -
  have c: "contributes example_manifest = Some example_contributions"
    by (simp add: example_manifest_def)
  have "case renderCommands example_keybindingService [] example_manifest of
          Inl e \<Rightarrow> False | Inr x \<Rightarrow> True"
    by code_simp
  then obtain x where r: "renderCommands example_keybindingService [] example_manifest = Inr x"
    by (auto split: sum.splits)
  have "or_empty (keybindings example_contributions) \<noteq> []"
    by (simp add: example_contributions_def or_empty_def)
  with C6_shortcuts_come_from_keybinding_service [OF c r] r show ?thesis by blast
qed


text \<open>
  C9, as the claim states it, fails at an explicit input: a command id declared twice in
  \<open>contributes.commands\<close> gets two rows, and the header counts two commands for one id.
\<close>

theorem C9_duplicate_declaration_two_rows:
  "renderCommands_commands example_keybindingService duplicate_declaration
     = Inr [\<lparr>c_id = ''a'', c_title = ''First'', c_keybindings = [], c_menus = []\<rparr>,
            \<lparr>c_id = ''a'', c_title = ''Second'', c_keybindings = [], c_menus = []\<rparr>]"
  by code_simp


text \<open>
  C9, amended: when the ids declared in \<open>contributes.commands\<close> are pairwise distinct and no
  command id of the manifest is the name of a property that a plain object inherits from
  \<^verbatim>\<open>Object.prototype\<close>, every command id declared or referenced by a menu or a keybinding
  has exactly one row; the row holds the declared title (empty for an id that is only
  referenced), the labels of all keybinding entries and the contexts of all menu entries that
  name the id; and the count in the header is the number of distinct command ids, which is
  the number of rows.
\<close>

theorem C9_one_row_per_command_id:
  assumes "contributes manifest = Some c"
    and "distinct (map ic_command (or_empty (commands c)))"
    and "\<forall>k \<in> set (command_ids c). k \<notin> set object_prototype_keys"
  shows "\<exists>rows. renderCommands_commands ks c = Inr rows
      \<and> distinct (map c_id rows)
      \<and> set (map c_id rows) = set (command_ids c)
      \<and> length rows = card (set (command_ids c))
      \<and> (\<forall>r \<in> set rows. c_title r = declared_title c (c_id r)
            \<and> c_keybindings r = keybinding_labels ks (or_empty (keybindings c)) (c_id r)
            \<and> c_menus r = menu_contexts (menu_refs (or_empty (menus c))) (c_id r))
      \<and> (\<exists>container'. renderCommands ks container manifest = Inr container'
            \<and> (rows = [] \<longrightarrow> container' = container)
            \<and> (rows \<noteq> [] \<longrightarrow> (\<exists>sec. container' = container @ [sec]
                  \<and> summary_text sec = ''Commands ('' @ string_of_nat (card (set (command_ids c))) @ '')''
                  \<and> section_entries sec = map renderCommands_row rows)))"
proof -
  from renderCommands_commands_rows [OF assms(2,3), of ks]
  obtain rows where rows: "renderCommands_commands ks c = Inr rows"
    and di: "distinct (map c_id rows)"
    and ids: "set (map c_id rows) = set (command_ids c)"
    and fields: "\<forall>r \<in> set rows. c_title r = declared_title c (c_id r)
            \<and> c_menus r = menu_contexts (menu_refs (or_empty (menus c))) (c_id r)
            \<and> c_keybindings r = keybinding_labels ks (or_empty (keybindings c)) (c_id r)"
    by blast
  have len: "length rows = card (set (command_ids c))"
    using distinct_card [OF di] ids by simp
  have summary: "localize1 ''commands'' ''Commands ({0})'' (length rows)
      = ''Commands ('' @ string_of_nat (card (set (command_ids c))) @ '')''"
    unfolding len by (simp add: localize1_def)
  have dom: "\<exists>container'. renderCommands ks container manifest = Inr container'
            \<and> (rows = [] \<longrightarrow> container' = container)
            \<and> (rows \<noteq> [] \<longrightarrow> (\<exists>sec. container' = container @ [sec]
                  \<and> summary_text sec = ''Commands ('' @ string_of_nat (card (set (command_ids c))) @ '')''
                  \<and> section_entries sec = map renderCommands_row rows))"
  proof (cases "rows = []")
    case True
    with assms(1) rows show ?thesis by (simp add: renderCommands_def)
  next
    case False
    with assms(1) rows summary show ?thesis
      by (simp add: renderCommands_def append_node_def)
  qed
  from rows di ids len fields dom show ?thesis by blast
qed

theorem C9_witness:
  "distinct (map ic_command (or_empty (commands example_contributions)))
   \<and> command_ids example_contributions = [''a'', ''a'', ''b'', ''b'', ''c'', ''a'']
   \<and> (\<exists>rows. renderCommands_commands example_keybindingService example_contributions = Inr rows
        \<and> map c_id rows = [''a'', ''b'', ''c'']
        \<and> distinct (map c_id rows)
        \<and> length rows = card (set (command_ids example_contributions)))"
proof -
  have m: "contributes example_manifest = Some example_contributions"
    by (simp add: example_manifest_def)
  have d: "distinct (map ic_command (or_empty (commands example_contributions)))"
    by (simp add: example_contributions_def or_empty_def)
  have ids: "command_ids example_contributions = [''a'', ''a'', ''b'', ''b'', ''c'', ''a'']"
    by (simp add: command_ids_def example_contributions_def no_contributions_def or_empty_def menu_refs_def)
  have k: "\<forall>k \<in> set (command_ids example_contributions). k \<notin> set object_prototype_keys"
    unfolding ids by (simp add: object_prototype_keys_def)
  have "case renderCommands_commands example_keybindingService example_contributions of
          Inl e \<Rightarrow> False | Inr rows \<Rightarrow> map c_id rows = [''a'', ''b'', ''c'']"
    by code_simp
  then obtain rows0 where r0: "renderCommands_commands example_keybindingService example_contributions = Inr rows0"
    "map c_id rows0 = [''a'', ''b'', ''c'']"
    by (auto split: sum.splits)
  from C9_one_row_per_command_id [OF m d k, of example_keybindingService "[]"] r0 d ids
  show ?thesis by auto
qed


section \<open>What the renderers do for absent and present categories\<close>

text \<open>
  With \<open>contributes\<close> undefined the first renderer throws; with \<open>contributes\<close> defined and
  every category absent nothing is rendered and nothing is thrown; rendering completes
  whenever the command ids are as in the amended C9; and each of the four simple renderers
  adds a section exactly when its list is not empty, whose summary shows the number of its
  entries.
\<close>

lemma render_sections_contributes_undefined:
  "render_sections ks \<lparr>contributes = None\<rparr> = ([], Some TypeError)"
  by (simp add: render_sections_def renderSettings_def)

lemma render_sections_all_absent:
  "render_sections ks \<lparr>contributes = Some no_contributions\<rparr> = ([], None)"
  by (simp add: render_sections_def renderSettings_def renderSettings_contrib_def
      renderCommands_def renderCommands_commands_def declared_commands_def allCommands_of_def
      renderThemes_def renderJSONValidation_def renderDebuggers_def
      no_contributions_def or_empty_def Let_def)

lemma render_sections_completes:
  assumes "contributes manifest = Some c"
    and "distinct (map ic_command (or_empty (commands c)))"
    and "\<forall>k \<in> set (command_ids c). k \<notin> set object_prototype_keys"
  shows "snd (render_sections ks manifest) = None"
proof -
  from renderCommands_commands_rows [OF assms(2,3), of ks]
  obtain rows where rows: "renderCommands_commands ks c = Inr rows" by blast
  have ok: "\<And>container. \<not> isl (renderSettings container manifest)"
    "\<And>container. \<not> isl (renderCommands ks container manifest)"
    "\<And>container. \<not> isl (renderThemes container manifest)"
    "\<And>container. \<not> isl (renderJSONValidation container manifest)"
    "\<And>container. \<not> isl (renderDebuggers container manifest)"
    using assms(1) rows
    by (simp_all add: renderSettings_def renderCommands_def renderThemes_def
        renderJSONValidation_def renderDebuggers_def Let_def)
  obtain c1 where 1: "renderSettings [] manifest = Inr c1"
    using ok(1) [of "[]"] by (cases "renderSettings [] manifest") auto
  obtain c2 where 2: "renderCommands ks c1 manifest = Inr c2"
    using ok(2) [of c1] by (cases "renderCommands ks c1 manifest") auto
  obtain c3 where 3: "renderThemes c2 manifest = Inr c3"
    using ok(3) [of c2] by (cases "renderThemes c2 manifest") auto
  obtain c4 where 4: "renderJSONValidation c3 manifest = Inr c4"
    using ok(4) [of c3] by (cases "renderJSONValidation c3 manifest") auto
  obtain c5 where 5: "renderDebuggers c4 manifest = Inr c5"
    using ok(5) [of c4] by (cases "renderDebuggers c4 manifest") auto
  show ?thesis by (simp add: render_sections_def 1 2 3 4 5)
qed


lemma renderSettings_section:
  assumes "contributes manifest = Some c"
  shows "\<exists>new. renderSettings container manifest = Inr (container @ new)
     \<and> (new = [] \<longleftrightarrow> renderSettings_contrib c = [])
     \<and> list_all (\<lambda>sec. summary_text sec = ''Settings ('' @ string_of_nat (length (section_entries sec)) @ '')''
            \<and> length (section_entries sec) = length (renderSettings_contrib c)) new"
  using assms by (simp add: renderSettings_def Let_def append_node_def localize1_def)

lemma renderThemes_section:
  assumes "contributes manifest = Some c"
  shows "\<exists>new. renderThemes container manifest = Inr (container @ new)
     \<and> (new = [] \<longleftrightarrow> or_empty (themes c) = [])
     \<and> list_all (\<lambda>sec. summary_text sec = ''Themes ('' @ string_of_nat (length (section_entries sec)) @ '')''
            \<and> length (section_entries sec) = length (or_empty (themes c))) new"
  using assms by (simp add: renderThemes_def Let_def append_node_def localize1_def)

lemma renderJSONValidation_section:
  assumes "contributes manifest = Some c"
  shows "\<exists>new. renderJSONValidation container manifest = Inr (container @ new)
     \<and> (new = [] \<longleftrightarrow> or_empty (jsonValidation c) = [])
     \<and> list_all (\<lambda>sec. summary_text sec = ''JSON Validation ('' @ string_of_nat (length (section_entries sec)) @ '')''
            \<and> length (section_entries sec) = length (or_empty (jsonValidation c))) new"
  using assms by (simp add: renderJSONValidation_def Let_def append_node_def localize1_def)

lemma renderDebuggers_section:
  assumes "contributes manifest = Some c"
  shows "\<exists>new. renderDebuggers container manifest = Inr (container @ new)
     \<and> (new = [] \<longleftrightarrow> or_empty (debuggers c) = [])
     \<and> list_all (\<lambda>sec. summary_text sec = ''Debuggers ('' @ string_of_nat (length (section_entries sec)) @ '')''
            \<and> length (section_entries sec) = length (or_empty (debuggers c))) new"
  using assms by (simp add: renderDebuggers_def Let_def append_node_def localize1_def)

section \<open>Keys inherited from Object.prototype\<close>

text \<open>
  C5 at a failing input. The manifest contributes one theme and one keybinding for the
  command id \<^verbatim>\<open>toString\<close>. \<^verbatim>\<open>allCommands['toString']\<close> is the function inherited from
  \<^verbatim>\<open>Object.prototype\<close>, which is truthy and has no \<open>keybindings\<close>, so the \<^verbatim>\<open>push\<close> throws a
  \<open>TypeError\<close> in \<open>renderCommands\<close>; \<open>renderThemes\<close> is never reached and no section is
  rendered, although the list of themes is not empty.
\<close>

theorem C5_themes_not_rendered_after_inherited_key:
  "or_empty (themes inherited_key_and_theme) = [\<lparr>t_label = ''Dark''\<rparr>]
   \<and> render_sections ks \<lparr>contributes = Some inherited_key_and_theme\<rparr> = ([], Some TypeError)"
  by (simp add: inherited_key_and_theme_def no_contributions_def or_empty_def render_sections_def
      renderSettings_def renderSettings_contrib_def renderCommands_def renderCommands_commands_def
      declared_commands_def allCommands_of_def keybinding_step_def dictionary_get_def
      object_prototype_keys_def Let_def)


text \<open>
  C10 at a failing input. The manifest's \<open>contributes\<close> is defined and holds one menu entry
  for the command id \<^verbatim>\<open>constructor\<close>. \<^verbatim>\<open>allCommands['constructor']\<close> is the function
  \<^verbatim>\<open>Object\<close>, truthy and without \<open>menus\<close>: rendering ends with a \<open>TypeError\<close>.
\<close>

theorem C10_inherited_key_throws:
  "contributes \<lparr>contributes = Some inherited_key_menu\<rparr> = Some inherited_key_menu
   \<and> render_sections ks \<lparr>contributes = Some inherited_key_menu\<rparr> = ([], Some TypeError)"
  by (simp add: inherited_key_menu_def no_contributions_def or_empty_def render_sections_def
      renderSettings_def renderSettings_contrib_def renderCommands_def renderCommands_commands_def
      declared_commands_def allCommands_of_def menu_step_def dictionary_get_def
      object_prototype_keys_def Let_def)


section \<open>Loads: at most one pending, one panel shown\<close>

lemma content_ok_Nil [simp]: "content_ok []"
  by (simp add: content_ok_def)

lemma content_ok_filter: "content_ok c \<Longrightarrow> content_ok (filter P c)"
  by (auto simp: content_ok_def list_all_iff)

lemma readme_node_simps [simp]:
  "readme_node no_readme" "readme_node (WebViewElement w cs)" "\<not> readme_node (subcontent x)"
  by (simp_all add: readme_node_def no_readme_def dollar_def subcontent_def)

lemma contributions_node_simps [simp]:
  "\<not> contributions_node no_readme" "\<not> contributions_node (WebViewElement w cs)" "contributions_node (subcontent x)"
  by (simp_all add: contributions_node_def no_readme_def dollar_def subcontent_def)

lemma loads_set_status [simp]:
  "length (loads (set_status lid st s)) = length (loads s)"
  "content (set_status lid st s) = content s"
  "contentDisposables (set_status lid st s) = contentDisposables s"
  by (simp_all add: set_status_def)

lemma status_set_status:
  "j < length (loads s) \<Longrightarrow>
     l_status (loads (set_status lid st s) ! j) = (if j = lid then st else l_status (loads s ! j))"
  by (simp add: set_status_def nth_list_update)

lemma show_no_readme_simps [simp]:
  "loads (show_no_readme s) = loads s"
  "content (show_no_readme s) = content s @ [no_readme]"
  "contentDisposables (show_no_readme s) = contentDisposables s"
  by (simp_all add: show_no_readme_def append_node_def)

lemma pending_simps [simp]:
  "pending (s\<lparr>content_loading := b\<rparr>) = pending s"
  "pending (s\<lparr>content := c\<rparr>) = pending s"
  "pending (s\<lparr>contentDisposables := ds\<rparr>) = pending s"
  "pending (s\<lparr>navbar_listeners := ls\<rparr>) = pending s"
  "pending (s\<lparr>navbar_actions := as\<rparr>) = pending s"
  "pending (s\<lparr>transientDisposables := ds\<rparr>) = pending s"
  "pending (show_no_readme s) = pending s"
  by (simp_all add: pending_def fun_eq_iff)

lemma pending_set_status:
  "pending (set_status lid st s) j = (if j = lid \<and> lid < length (loads s) then st = Pending else pending s j)"
  by (auto simp: pending_def status_set_status)

lemma pending_fetch_updates [simp]:
  "pending (s\<lparr>readme_promises := rp\<rparr>) = pending s"
  "pending (s\<lparr>manifest_promises := mp\<rparr>) = pending s"
  "pending (s\<lparr>extensionReadme := cr\<rparr>) = pending s"
  "pending (s\<lparr>extensionManifest := cm\<rparr>) = pending s"
  by (simp_all add: pending_def fun_eq_iff)

lemma fail_load_frame [simp]:
  "length (loads (fail_load lid s)) = length (loads s)"
  "contentDisposables (fail_load lid s) = contentDisposables s"
  by (simp_all add: fail_load_def split: target.splits)

lemma pending_fail_load: "pending (fail_load lid s) j \<Longrightarrow> pending s j"
  by (auto simp: fail_load_def pending_set_status split: target.splits if_splits)

lemma fold_fail_load_frame [simp]:
  "length (loads (fold fail_load ls s)) = length (loads s)"
  "contentDisposables (fold fail_load ls s) = contentDisposables s"
  by (induction ls arbitrary: s) simp_all

lemma pending_fold_fail_load: "pending (fold fail_load ls s) j \<Longrightarrow> pending s j"
  by (induction ls arbitrary: s) (auto dest: pending_fail_load)

lemma waiting_on_none: "(\<And>j. \<not> pending s j) \<Longrightarrow> waiting_on t s = []"
  by (auto simp: waiting_on_def pending_def filter_empty_conv)

lemma cancel_fetch_frame [simp]:
  "length (loads (cancel_fetch t s)) = length (loads s)"
  "contentDisposables (cancel_fetch t s) = contentDisposables s"
  by (simp_all add: cancel_fetch_def Let_def split: target.splits)

lemma pending_cancel_fetch: "pending (cancel_fetch t s) j \<Longrightarrow> pending s j"
  by (auto simp: cancel_fetch_def Let_def split: target.splits if_splits dest!: pending_fold_fail_load)

text \<open>With no load pending, cancelling a fetch touches neither the loads nor the content.\<close>

lemma cancel_fetch_quiet:
  assumes "\<And>j. \<not> pending s j"
  shows "loads (cancel_fetch t s) = loads s" and "content (cancel_fetch t s) = content s"
proof -
  have w: "\<And>u rp cr. waiting_on u (s\<lparr>readme_promises := rp, extensionReadme := cr\<rparr>) = []"
    "\<And>u mp cm. waiting_on u (s\<lparr>manifest_promises := mp, extensionManifest := cm\<rparr>) = []"
    using assms by (simp_all add: waiting_on_none)
  show "loads (cancel_fetch t s) = loads s" and "content (cancel_fetch t s) = content s"
    by (simp_all add: cancel_fetch_def Let_def w split: target.splits)
qed

lemma cancel_load_frame [simp]:
  "length (loads (cancel_load lid s)) = length (loads s)"
  "contentDisposables (cancel_load lid s) = contentDisposables s"
  by (simp_all add: cancel_load_def split: target.splits)

lemma pending_cancel_load:
  "pending (cancel_load lid s) j \<Longrightarrow> pending s j \<and> j \<noteq> lid"
  by (auto simp: cancel_load_def pending_set_status split: target.splits if_splits
           dest!: pending_cancel_fetch) (auto simp: pending_def)

lemma cancel_load_idle: "\<not> pending s lid \<Longrightarrow> cancel_load lid s = s"
  by (auto simp: cancel_load_def pending_def)

text \<open>Cancelling the one load that is pending: it alone changes, to \<open>Cancelled\<close>.\<close>

lemma cancel_load_only:
  assumes only: "\<And>j. pending s j \<Longrightarrow> j = lid" and p: "pending s lid"
  shows "loads (cancel_load lid s) = (loads s)[lid := (loads s ! lid)\<lparr>l_status := Cancelled\<rparr>]"
    and "content (cancel_load lid s) = content s \<or> content (cancel_load lid s) = content s @ [no_readme]"
proof -
  let ?r = "(set_status lid Cancelled (show_no_readme s))\<lparr>content_loading := False\<rparr>"
  let ?m = "(set_status lid Cancelled s)\<lparr>content_loading := False\<rparr>"
  have qr: "\<And>j. \<not> pending ?r j" and qm: "\<And>j. \<not> pending ?m j"
    using only by (auto simp: pending_set_status) (auto simp: pending_def)
  have lr: "loads ?r = (loads s)[lid := (loads s ! lid)\<lparr>l_status := Cancelled\<rparr>]"
    and lm: "loads ?m = (loads s)[lid := (loads s ! lid)\<lparr>l_status := Cancelled\<rparr>]"
    by (simp_all add: set_status_def)
  have cr: "content ?r = content s @ [no_readme]" and cm: "content ?m = content s"
    by simp_all
  from p have c: "cancel_load lid s =
      (case l_target (loads s ! lid) of
         ReadmeFetch f \<Rightarrow> cancel_fetch (ReadmeFetch f) ?r
       | ManifestFetch f \<Rightarrow> cancel_fetch (ManifestFetch f) ?m)"
    by (simp add: cancel_load_def pending_def)
  show "loads (cancel_load lid s) = (loads s)[lid := (loads s ! lid)\<lparr>l_status := Cancelled\<rparr>]"
    unfolding c using cancel_fetch_quiet(1) [OF qr] cancel_fetch_quiet(1) [OF qm] lr lm
    by (simp split: target.splits)
  show "content (cancel_load lid s) = content s \<or> content (cancel_load lid s) = content s @ [no_readme]"
    unfolding c using cancel_fetch_quiet(2) [OF qr] cancel_fetch_quiet(2) [OF qm] cr cm
    by (simp split: target.splits)
qed

lemma cancels_refl [simp]: "cancels s s"
  by (simp add: cancels_def)

lemma cancels_trans: "cancels s t \<Longrightarrow> cancels t u \<Longrightarrow> cancels s u"
  unfolding cancels_def by (metis status.distinct(5))

lemma inv_loads_only:
  assumes "inv_loads s" and "pending s lid" and "pending s j"
  shows "j = lid"
proof -
  from assms have "Suc j = length (loads s)" and "Suc lid = length (loads s)"
    by (simp_all add: inv_loads_def)
  then show ?thesis by simp
qed

lemma cancels_cancel_load:
  assumes "inv_loads s"
  shows "cancels s (cancel_load lid s)"
proof (cases "pending s lid")
  case False
  then show ?thesis by (simp add: cancel_load_idle)
next
  case True
  have only: "\<And>j. pending s j \<Longrightarrow> j = lid"
    by (rule inv_loads_only [OF assms True])
  from True have "lid < length (loads s)" and "l_status (loads s ! lid) = Pending"
    by (simp_all add: pending_def)
  then show ?thesis
    by (auto simp: cancels_def cancel_load_only(1) [OF only True] nth_list_update)
qed

lemma inv_loads_cancel_load:
  assumes "inv_loads s"
  shows "inv_loads (cancel_load lid s)"
proof (cases "pending s lid")
  case False
  with assms show ?thesis by (simp add: cancel_load_idle)
next
  case True
  have only: "\<And>j. pending s j \<Longrightarrow> j = lid"
    by (rule inv_loads_only [OF assms True])
  have empty: "content s = []"
    using assms True by (simp add: inv_loads_def)
  have none: "\<And>j. \<not> pending (cancel_load lid s) j"
    using only by (auto dest: pending_cancel_load)
  have "content (cancel_load lid s) = [] \<or> content (cancel_load lid s) = [no_readme]"
    using cancel_load_only(2) [OF only True] empty by simp
  then have "content_ok (content (cancel_load lid s))"
    by (auto simp: content_ok_def)
  with none show ?thesis by (simp add: inv_loads_def)
qed

lemma dispose_one_frame [simp]:
  "length (loads (dispose_one d s)) = length (loads s)"
  "contentDisposables (dispose_one d s) = contentDisposables s"
  by (simp_all add: dispose_one_def split: disposable.splits)

lemma pending_dispose_one:
  "pending (dispose_one d s) j \<Longrightarrow> pending s j \<and> d \<noteq> CancelLoad j"
  by (auto simp: dispose_one_def split: disposable.splits dest: pending_cancel_load)

lemma cancels_dispose_one: "inv_loads s \<Longrightarrow> cancels s (dispose_one d s)"
  by (cases d) (simp_all add: dispose_one_def cancels_cancel_load, simp_all add: cancels_def)

lemma inv_loads_dispose_one:
  assumes "inv_loads s"
  shows "inv_loads (dispose_one d s)"
proof (cases d)
  case (CancelLoad lid)
  with assms show ?thesis by (simp add: dispose_one_def inv_loads_cancel_load)
next
  case (WebViewD w)
  have "content s = [] \<Longrightarrow> filter (\<lambda>n. \<not> is_webview w n) (content s) = []" by simp
  with assms WebViewD show ?thesis
    by (auto simp: dispose_one_def inv_loads_def content_ok_filter)
qed (use assms in \<open>auto simp: dispose_one_def inv_loads_def\<close>)

lemma dispose_frame [simp]:
  "length (loads (dispose ds s)) = length (loads s)"
  "contentDisposables (dispose ds s) = contentDisposables s"
  unfolding dispose_def by (induction ds arbitrary: s) simp_all

lemma pending_dispose:
  "pending (dispose ds s) j \<Longrightarrow> pending s j \<and> CancelLoad j \<notin> set ds"
  unfolding dispose_def
  by (induction ds arbitrary: s) (auto dest: pending_dispose_one)

lemma cancels_dispose: "inv_loads s \<Longrightarrow> cancels s (dispose ds s)"
  unfolding dispose_def
proof (induction ds arbitrary: s)
  case Nil
  then show ?case by simp
next
  case (Cons d ds)
  from cancels_trans [OF cancels_dispose_one [OF Cons.prems] Cons.IH [OF inv_loads_dispose_one [OF Cons.prems]]]
  show ?case by simp
qed

lemma inv_loads_dispose:
  assumes "inv_loads s"
  shows "inv_loads (dispose ds s)"
  using assms unfolding dispose_def
  by (induction ds arbitrary: s) (simp_all add: inv_loads_dispose_one)

lemma dispose_contentDisposables_no_pending:
  assumes "inv_loads s"
  shows "\<not> pending (dispose_contentDisposables s) j"
  using assms by (auto simp: dispose_contentDisposables_def inv_loads_def dest: pending_dispose)

lemma dispose_contentDisposables_frame [simp]:
  "length (loads (dispose_contentDisposables s)) = length (loads s)"
  "contentDisposables (dispose_contentDisposables s) = []"
  by (simp_all add: dispose_contentDisposables_def)

lemma cancels_dispose_contentDisposables:
  "inv_loads s \<Longrightarrow> cancels s (dispose_contentDisposables s)"
  using cancels_dispose [of s "contentDisposables s"]
  by (simp add: dispose_contentDisposables_def cancels_def)

lemma inv_loads_updates:
  "inv_loads (s\<lparr>content_loading := b\<rparr>) = inv_loads s"
  "inv_loads (s\<lparr>navbar_actions := as\<rparr>) = inv_loads s"
  "inv_loads (s\<lparr>navbar_listeners := ls\<rparr>) = inv_loads s"
  "inv_loads (s\<lparr>transientDisposables := ds\<rparr>) = inv_loads s"
  "inv_loads (s\<lparr>readme_promises := rp\<rparr>) = inv_loads s"
  "inv_loads (s\<lparr>manifest_promises := mp\<rparr>) = inv_loads s"
  "inv_loads (s\<lparr>next_id := n\<rparr>) = inv_loads s"
  "inv_loads (s\<lparr>inputs := n\<rparr>) = inv_loads s"
  "inv_loads (s\<lparr>extensionReadme := cr\<rparr>) = inv_loads s"
  "inv_loads (s\<lparr>extensionManifest := cm\<rparr>) = inv_loads s"
  by (simp_all add: inv_loads_def pending_def)

lemma nav_free_simps [simp]:
  "nav_free []"
  "nav_free (ds @ es) = (nav_free ds \<and> nav_free es)"
  "nav_free (CancelLoad l # ds) = nav_free ds"
  "nav_free (WebViewD w # ds) = nav_free ds"
  "nav_free (LinkListenerD w # ds) = nav_free ds"
  "nav_free (ThemeListenerD w # ds) = nav_free ds"
  "nav_free (OtherD x # ds) = nav_free ds"
  "\<not> nav_free (NavListenerD n # ds)"
  by (simp_all add: nav_free_def)

lemma display_readme_frame:
  assumes "display_readme sv body s = (s', u)"
  shows "loads s' = loads s"
    and "set (contentDisposables s) \<subseteq> set (contentDisposables s')"
    and "\<exists>c. content s' = content s @ c \<and> list_all readme_node c"
    and "navbar_listeners s' = navbar_listeners s" and "navbar_actions s' = navbar_actions s"
    and "transientDisposables s' = transientDisposables s"
    and "nav_free (contentDisposables s) \<longrightarrow> nav_free (contentDisposables s')"
  using assms
  by (auto simp: display_readme_def Let_def append_node_def split: option.splits display_stage.splits)

lemma readme_then_frame:
  assumes "readme_then sv r s = (s', st)"
  shows "loads s' = loads s"
    and "set (contentDisposables s) \<subseteq> set (contentDisposables s')"
    and "\<exists>c. content s' = content s @ c \<and> list_all readme_node c"
    and "navbar_listeners s' = navbar_listeners s" and "navbar_actions s' = navbar_actions s"
    and "transientDisposables s' = transientDisposables s"
    and "st = Resolved"
    and "nav_free (contentDisposables s) \<longrightarrow> nav_free (contentDisposables s')"
proof -
  obtain s1 u where c: "readme_chain sv r s = (s1, u)" by (cases "readme_chain sv r s")
  have s1: "loads s1 = loads s \<and> set (contentDisposables s) \<subseteq> set (contentDisposables s1)
      \<and> (\<exists>c. content s1 = content s @ c \<and> list_all readme_node c)
      \<and> navbar_listeners s1 = navbar_listeners s \<and> navbar_actions s1 = navbar_actions s
      \<and> transientDisposables s1 = transientDisposables s
      \<and> (nav_free (contentDisposables s) \<longrightarrow> nav_free (contentDisposables s1))"
  proof (cases r)
    case (Inl e)
    with c show ?thesis by (simp add: readme_chain_def)
  next
    case (Inr md)
    show ?thesis
    proof (cases "marked_parse sv md")
      case (Inl e)
      with c Inr show ?thesis by (simp add: readme_chain_def)
    next
      case (Inr html)
      with c \<open>r = Inr md\<close> have "display_readme sv (renderBody (toUrl sv) html) s = (s1, u)"
        by (simp add: readme_chain_def)
      from display_readme_frame [OF this] show ?thesis by blast
    qed
  qed
  have s': "s' = s1 \<or> s' = show_no_readme s1" and st: "st = Resolved"
    using assms c by (auto simp: readme_then_def split: sum.splits)
  show "loads s' = loads s" using s1 s' by auto
  show "set (contentDisposables s) \<subseteq> set (contentDisposables s')" using s1 s' by auto
  show "\<exists>c. content s' = content s @ c \<and> list_all readme_node c"
  proof -
    from s1 obtain c where c: "content s1 = content s @ c" "list_all readme_node c" by blast
    from s' show ?thesis
    proof
      assume "s' = s1" with c show ?thesis by blast
    next
      assume "s' = show_no_readme s1"
      then have "content s' = content s @ (c @ [no_readme])" using c by simp
      moreover have "list_all readme_node (c @ [no_readme])" using c(2) by simp
      ultimately show ?thesis by blast
    qed
  qed
  show "navbar_listeners s' = navbar_listeners s" using s1 s' by (auto simp: show_no_readme_def)
  show "navbar_actions s' = navbar_actions s" using s1 s' by (auto simp: show_no_readme_def)
  show "transientDisposables s' = transientDisposables s" using s1 s' by (auto simp: show_no_readme_def)
  show "st = Resolved" by (rule st)
  show "nav_free (contentDisposables s) \<longrightarrow> nav_free (contentDisposables s')"
    using s1 s' by auto
qed

lemma manifest_then_frame:
  assumes "manifest_then sv r s = (s', st)"
  shows "loads s' = loads s"
    and "contentDisposables s' = contentDisposables s"
    and "content s' = content s \<or> (\<exists>x. content s' = [subcontent x])"
    and "navbar_listeners s' = navbar_listeners s" and "navbar_actions s' = navbar_actions s"
    and "transientDisposables s' = transientDisposables s"
    and "st \<noteq> Pending"
  using assms
  by (auto simp: manifest_then_def split: sum.splits prod.splits option.splits)

lemma extensionReadme_get_frame:
  assumes "extensionReadme_get s = Some (f, s')"
  shows "loads s' = loads s" "content s' = content s" "contentDisposables s' = contentDisposables s"
    "navbar_listeners s' = navbar_listeners s" "navbar_actions s' = navbar_actions s"
    "transientDisposables s' = transientDisposables s" "inputs s' = inputs s"
  using assms by (auto simp: extensionReadme_get_def Let_def split: option.splits)

lemma extensionManifest_get_frame:
  assumes "extensionManifest_get s = Some (f, s')"
  shows "loads s' = loads s" "content s' = content s" "contentDisposables s' = contentDisposables s"
    "navbar_listeners s' = navbar_listeners s" "navbar_actions s' = navbar_actions s"
    "transientDisposables s' = transientDisposables s" "inputs s' = inputs s"
  using assms by (auto simp: extensionManifest_get_def Let_def split: option.splits)

lemma set_status_frame [simp]:
  "navbar_listeners (set_status lid st s) = navbar_listeners s"
  "navbar_actions (set_status lid st s) = navbar_actions s"
  "transientDisposables (set_status lid st s) = transientDisposables s"
  by (simp_all add: set_status_def)

lemma set_status_nth:
  "j \<noteq> lid \<Longrightarrow> loads (set_status lid st s) ! j = loads s ! j"
  by (simp add: set_status_def)

lemma content_ok_readme: "list_all readme_node c \<Longrightarrow> content_ok c"
  by (simp add: content_ok_def)

lemma content_ok_subcontent [simp]: "content_ok [subcontent x]"
  by (simp add: content_ok_def)

lemma task_ok_openReadme: "task_ok (openReadme_task sv)"
  unfolding task_ok_def
proof (intro allI impI)
  fix s lid s'
  assume a: "openReadme_task sv s = Some (lid, s')"
  then obtain f s1 where g: "extensionReadme_get s = Some (f, s1)"
    by (auto simp: openReadme_task_def split: option.splits)
  note fr = extensionReadme_get_frame [OF g]
  let ?s2 = "s1\<lparr>loads := loads s1 @ [\<lparr>l_target = ReadmeFetch f, l_input = inputs s1, l_status = Pending\<rparr>]\<rparr>"
  have lid: "lid = length (loads s)" using a g fr by (auto simp: openReadme_task_def Let_def split: option.splits prod.splits)
  show "lid = length (loads s) \<and> length (loads s') = Suc lid
        \<and> (\<forall>j < lid. loads s' ! j = loads s ! j)
        \<and> set (contentDisposables s) \<subseteq> set (contentDisposables s')
        \<and> (pending s' lid \<longrightarrow> content s' = content s \<and> contentDisposables s' = contentDisposables s)
        \<and> (content s = [] \<longrightarrow> content_ok (content s'))
        \<and> navbar_listeners s' = navbar_listeners s
        \<and> navbar_actions s' = navbar_actions s
        \<and> transientDisposables s' = transientDisposables s
        \<and> (nav_free (contentDisposables s) \<longrightarrow> nav_free (contentDisposables s'))"
  proof (cases "readme_promises ?s2 ! f")
    case None
    with a g have "s' = ?s2" by (simp add: openReadme_task_def Let_def)
    with lid fr show ?thesis by (simp add: nth_append)
  next
    case (Some r)
    obtain s3 st where t: "readme_then sv r ?s2 = (s3, st)" by (cases "readme_then sv r ?s2")
    with a g Some have s': "s' = set_status lid st s3" by (simp add: openReadme_task_def Let_def lid fr)
    note th = readme_then_frame [OF t]
    have l3: "loads s3 = loads s @ [\<lparr>l_target = ReadmeFetch f, l_input = inputs s1, l_status = Pending\<rparr>]"
      using th(1) fr by simp
    have np: "\<not> pending s' lid"
      unfolding s' by (simp add: pending_set_status th(7) l3 lid)
    have old: "\<forall>j < lid. loads s' ! j = loads s ! j"
      unfolding s' by (simp add: set_status_nth l3 lid nth_append)
    from th(3) obtain c where c: "content s3 = content s @ c" "list_all readme_node c"
      using fr by auto
    have ok: "content s = [] \<longrightarrow> content_ok (content s')"
      unfolding s' using c by (simp add: content_ok_readme)
    show ?thesis
      using lid np old ok th fr unfolding s' by (simp add: l3)
  qed
qed

lemma task_ok_openContributions: "task_ok (openContributions_task sv)"
  unfolding task_ok_def
proof (intro allI impI)
  fix s lid s'
  assume a: "openContributions_task sv s = Some (lid, s')"
  then obtain f s1 where g: "extensionManifest_get s = Some (f, s1)"
    by (auto simp: openContributions_task_def split: option.splits)
  note fr = extensionManifest_get_frame [OF g]
  let ?s2 = "s1\<lparr>loads := loads s1 @ [\<lparr>l_target = ManifestFetch f, l_input = inputs s1, l_status = Pending\<rparr>]\<rparr>"
  have lid: "lid = length (loads s)" using a g fr by (auto simp: openContributions_task_def Let_def split: option.splits prod.splits)
  show "lid = length (loads s) \<and> length (loads s') = Suc lid
        \<and> (\<forall>j < lid. loads s' ! j = loads s ! j)
        \<and> set (contentDisposables s) \<subseteq> set (contentDisposables s')
        \<and> (pending s' lid \<longrightarrow> content s' = content s \<and> contentDisposables s' = contentDisposables s)
        \<and> (content s = [] \<longrightarrow> content_ok (content s'))
        \<and> navbar_listeners s' = navbar_listeners s
        \<and> navbar_actions s' = navbar_actions s
        \<and> transientDisposables s' = transientDisposables s
        \<and> (nav_free (contentDisposables s) \<longrightarrow> nav_free (contentDisposables s'))"
  proof (cases "manifest_promises ?s2 ! f")
    case None
    with a g have "s' = ?s2" by (simp add: openContributions_task_def Let_def)
    with lid fr show ?thesis by (simp add: nth_append)
  next
    case (Some r)
    obtain s3 st where t: "manifest_then sv r ?s2 = (s3, st)" by (cases "manifest_then sv r ?s2")
    with a g Some have s': "s' = set_status lid st s3" by (simp add: openContributions_task_def Let_def lid fr)
    note th = manifest_then_frame [OF t]
    have l3: "loads s3 = loads s @ [\<lparr>l_target = ManifestFetch f, l_input = inputs s1, l_status = Pending\<rparr>]"
      using th(1) fr by simp
    have np: "\<not> pending s' lid"
      unfolding s' using th(7) by (simp add: pending_set_status l3 lid)
    have old: "\<forall>j < lid. loads s' ! j = loads s ! j"
      unfolding s' by (simp add: set_status_nth l3 lid nth_append)
    have ok: "content s = [] \<longrightarrow> content_ok (content s')"
      unfolding s' using th(3) fr by auto
    show ?thesis
      using lid np old ok th fr unfolding s' by (simp add: l3)
  qed
qed

lemma inv_loads_start_load:
  assumes ok: "task_ok task" and quiet: "\<And>j. \<not> pending s j" and empty: "content s = []"
  shows "inv_loads (start_load task s)"
proof (cases "task s")
  case None
  with quiet empty show ?thesis by (simp add: start_load_def inv_loads_def)
next
  case (Some p)
  obtain lid s1 where p: "p = (lid, s1)" by (cases p)
  from ok Some p have t: "lid = length (loads s)" "length (loads s1) = Suc lid"
    "\<forall>j < lid. loads s1 ! j = loads s ! j"
    "pending s1 lid \<longrightarrow> content s1 = content s"
    "content s = [] \<longrightarrow> content_ok (content s1)"
    unfolding task_ok_def by blast+
  let ?s2 = "if l_status (loads s1 ! lid) = Pending then s1 else s1\<lparr>content_loading := False\<rparr>"
  have s': "start_load task s = ?s2\<lparr>contentDisposables := contentDisposables ?s2 @ [CancelLoad lid]\<rparr>"
    using Some p by (simp add: start_load_def Let_def)
  have pend: "\<And>j. pending (start_load task s) j \<Longrightarrow> j = lid \<and> pending s1 lid"
  proof -
    fix j assume "pending (start_load task s) j"
    then have j: "pending s1 j" unfolding s' by (simp split: if_splits)
    have "j = lid"
    proof (rule ccontr)
      assume "j \<noteq> lid"
      with j t(2) have "j < lid" by (simp add: pending_def)
      with t(3) j t(1) have "pending s j" by (simp add: pending_def)
      with quiet show False by simp
    qed
    with j show "j = lid \<and> pending s1 lid" by simp
  qed
  have len: "length (loads (start_load task s)) = Suc lid" unfolding s' using t(2) by simp
  have cont: "content (start_load task s) = content s1" unfolding s' by simp
  have reg: "CancelLoad lid \<in> set (contentDisposables (start_load task s))" unfolding s' by simp
  show ?thesis
    unfolding inv_loads_def using pend len cont reg t(4,5) empty by auto
qed

lemma inv_loads_loadContents:
  assumes "task_ok task" and "inv_loads s"
  shows "inv_loads (loadContents task s)"
  unfolding loadContents_def
proof (rule inv_loads_start_load [OF assms(1)])
  show "\<And>j. \<not> pending (empty_content (dispose_contentDisposables s)) j"
    using dispose_contentDisposables_no_pending [OF assms(2)]
    by (simp add: empty_content_def pending_def)
  show "content (empty_content (dispose_contentDisposables s)) = []"
    by (simp add: empty_content_def)
qed

lemma inv_loads_onNavbarChange:
  assumes "inv_loads s"
  shows "inv_loads (onNavbarChange sv ext ident s)"
  using assms
  by (simp add: onNavbarChange_def openReadme_def openContributions_def
      inv_loads_loadContents task_ok_openReadme task_ok_openContributions)

lemma fold_invariant:
  assumes "P s" and "\<And>x t. P t \<Longrightarrow> P (f x t)"
  shows "P (fold f xs s)"
  using assms(1) by (induction xs arbitrary: s) (simp_all add: assms(2))

lemma inv_loads_fire:
  assumes "inv_loads s"
  shows "inv_loads (fire sv ident s)"
  unfolding fire_def
  by (rule fold_invariant [where P = inv_loads]) (simp_all add: assms inv_loads_onNavbarChange)

lemma inv_loads_navbar_run:
  assumes "inv_loads s"
  shows "inv_loads (navbar_run sv ident s)"
  using inv_loads_fire [OF assms, of sv ident]
  by (simp add: navbar_run_def Let_def inv_loads_updates)

lemma inv_loads_navbar_push:
  assumes "inv_loads s"
  shows "inv_loads (navbar_push sv ident label s)"
proof -
  have "inv_loads (s\<lparr>navbar_actions := navbar_actions s @ [\<lparr>a_id = ident, a_label = label, a_enabled = True\<rparr>]\<rparr>)"
    (is "inv_loads ?s1")
    using assms by (simp add: inv_loads_updates)
  moreover have "navbar_push sv ident label s = navbar_run sv ident ?s1 \<or> navbar_push sv ident label s = ?s1"
    by (simp add: navbar_push_def Let_def)
  ultimately show ?thesis using inv_loads_navbar_run [of ?s1 sv ident] by auto
qed

lemma inv_loads_new_input:
  assumes "inv_loads s"
  shows "inv_loads (new_input sv ext s)"
  using inv_loads_dispose [OF assms, of "transientDisposables s"]
  by (simp add: new_input_def Let_def inv_loads_updates)

lemma inv_loads_setInput:
  assumes "inv_loads s"
  shows "inv_loads (setInput sv ext s)"
proof -
  let ?s5 = "navbar_onChange ext (navbar_clear (new_input sv ext s))"
  let ?s7 = "navbar_push sv NavbarSection_Contributions (localize ''contributions'' ''Contributions'')
      (navbar_push sv NavbarSection_Readme (localize ''details'' ''Details'') ?s5)"
  have "inv_loads ?s5"
    using inv_loads_new_input [OF assms, of sv ext]
    by (simp add: inv_loads_updates navbar_onChange_def navbar_clear_def)
  then have 7: "inv_loads ?s7" by (intro inv_loads_navbar_push)
  have "setInput sv ext s = ?s7\<lparr>content := []\<rparr>" by (simp add: setInput_def Let_def)
  moreover have "inv_loads (?s7\<lparr>content := []\<rparr>)"
    using 7 unfolding inv_loads_def by simp
  ultimately show ?thesis by simp
qed

lemma inv_loads_continue_readme:
  assumes "inv_loads s"
  shows "inv_loads (continue_readme sv r lid s)"
proof (cases "pending s lid")
  case False
  then have "continue_readme sv r lid s = s" by (auto simp: continue_readme_def pending_def)
  with assms show ?thesis by simp
next
  case True
  obtain s1 st where t: "readme_then sv r s = (s1, st)" by (cases "readme_then sv r s")
  note th = readme_then_frame [OF t]
  have s': "continue_readme sv r lid s = (set_status lid st s1)\<lparr>content_loading := False\<rparr>"
    using True t by (simp add: continue_readme_def pending_def)
  have one: "\<And>j. pending s j \<Longrightarrow> j = lid"
    using assms True unfolding inv_loads_def by (metis Suc_inject)
  have empty: "content s = []" using assms True by (simp add: inv_loads_def)
  have none: "\<And>j. \<not> pending (continue_readme sv r lid s) j"
  proof
    fix j assume "pending (continue_readme sv r lid s) j"
    then have "j \<noteq> lid \<and> pending s1 j"
      unfolding s' using th(7) by (auto simp: pending_set_status split: if_splits) (auto simp: pending_def)
    then have "j \<noteq> lid \<and> pending s j" using th(1) by (simp add: pending_def)
    with one show False by blast
  qed
  from th(3) empty obtain c where "content s1 = c" "list_all readme_node c" by auto
  then have "content_ok (content (continue_readme sv r lid s))"
    unfolding s' by (simp add: content_ok_readme)
  with none show ?thesis by (simp add: inv_loads_def)
qed

lemma inv_loads_continue_manifest:
  assumes "inv_loads s"
  shows "inv_loads (continue_manifest sv r lid s)"
proof (cases "pending s lid")
  case False
  then have "continue_manifest sv r lid s = s" by (auto simp: continue_manifest_def pending_def)
  with assms show ?thesis by simp
next
  case True
  obtain s1 st where t: "manifest_then sv r s = (s1, st)" by (cases "manifest_then sv r s")
  note th = manifest_then_frame [OF t]
  have s': "continue_manifest sv r lid s = (set_status lid st s1)\<lparr>content_loading := False\<rparr>"
    using True t by (simp add: continue_manifest_def pending_def)
  have one: "\<And>j. pending s j \<Longrightarrow> j = lid"
    using assms True unfolding inv_loads_def by (metis Suc_inject)
  have empty: "content s = []" using assms True by (simp add: inv_loads_def)
  have none: "\<And>j. \<not> pending (continue_manifest sv r lid s) j"
  proof
    fix j assume "pending (continue_manifest sv r lid s) j"
    then have "j \<noteq> lid \<and> pending s1 j"
      unfolding s' using th(7) by (auto simp: pending_set_status split: if_splits) (auto simp: pending_def)
    then have "j \<noteq> lid \<and> pending s j" using th(1) by (simp add: pending_def)
    with one show False by blast
  qed
  have "content_ok (content (continue_manifest sv r lid s))"
    unfolding s' using th(3) empty by auto
  with none show ?thesis by (simp add: inv_loads_def)
qed

lemma inv_loads_readme_arrives:
  assumes "inv_loads s"
  shows "inv_loads (readme_arrives sv f r s)"
proof -
  have "inv_loads (s\<lparr>readme_promises := (readme_promises s)[f := Some r]\<rparr>)"
    using assms by (simp add: inv_loads_updates)
  then have "\<And>ws. inv_loads (fold (continue_readme sv r) ws (s\<lparr>readme_promises := (readme_promises s)[f := Some r]\<rparr>))"
    by (rule fold_invariant [where P = inv_loads]) (rule inv_loads_continue_readme)
  with assms show ?thesis by (simp add: readme_arrives_def Let_def)
qed

lemma inv_loads_manifest_arrives:
  assumes "inv_loads s"
  shows "inv_loads (manifest_arrives sv f r s)"
proof -
  have "inv_loads (s\<lparr>manifest_promises := (manifest_promises s)[f := Some r]\<rparr>)"
    using assms by (simp add: inv_loads_updates)
  then have "\<And>ws. inv_loads (fold (continue_manifest sv r) ws (s\<lparr>manifest_promises := (manifest_promises s)[f := Some r]\<rparr>))"
    by (rule fold_invariant [where P = inv_loads]) (rule inv_loads_continue_manifest)
  with assms show ?thesis by (simp add: manifest_arrives_def Let_def)
qed

lemma inv_loads_step:
  assumes "inv_loads s"
  shows "inv_loads (step sv s ev)"
  using assms
  by (cases ev)
     (simp_all add: step_def inv_loads_setInput inv_loads_navbar_run
        inv_loads_readme_arrives inv_loads_manifest_arrives)

lemma foldl_invariant:
  assumes "P s" and "\<And>t x. P t \<Longrightarrow> P (f t x)"
  shows "P (foldl f s xs)"
  using assms(1) by (induction xs arbitrary: s) (simp_all add: assms(2))

lemma inv_loads_initial: "inv_loads initial"
  by (simp add: inv_loads_def initial_def pending_def)

lemma inv_loads_run: "inv_loads (run sv evs)"
  unfolding run_def
  by (rule foldl_invariant [where P = inv_loads]) (simp_all add: inv_loads_initial inv_loads_step)

text \<open>
  C2: in every state the editor can reach, only the newest load can be pending; when
  \<open>loadContents\<close> is called, disposing the registered content disposables (line 428)
  cancels the load that is still pending, so that no load is pending when the content is
  emptied and the new loading task is run (lines 430 to 433).
\<close>

theorem C2_pending_load_is_cancelled_first:
  "let s = run sv evs; s' = dispose_contentDisposables s in
     (\<forall>lid. pending s lid \<longrightarrow> Suc lid = length (loads s))
     \<and> (\<forall>lid. pending s lid \<longrightarrow> l_status (loads s' ! lid) = Cancelled)
     \<and> (\<forall>lid. \<not> pending (empty_content s') lid)
     \<and> loadContents loadingTask s = start_load loadingTask (empty_content s')"
proof -
  let ?s = "run sv evs"
  let ?s' = "dispose_contentDisposables ?s"
  have inv: "inv_loads ?s" by (rule inv_loads_run)
  have newest: "\<forall>lid. pending ?s lid \<longrightarrow> Suc lid = length (loads ?s)"
    using inv by (simp add: inv_loads_def)
  have quiet: "\<And>lid. \<not> pending ?s' lid"
    by (rule dispose_contentDisposables_no_pending [OF inv])
  have cancelled: "\<forall>lid. pending ?s lid \<longrightarrow> l_status (loads ?s' ! lid) = Cancelled"
  proof (intro allI impI)
    fix lid assume p: "pending ?s lid"
    then have lt: "lid < length (loads ?s)" and st: "l_status (loads ?s ! lid) = Pending"
      by (simp_all add: pending_def)
    from cancels_dispose_contentDisposables [OF inv] lt
    have "l_status (loads ?s' ! lid) = l_status (loads ?s ! lid)
        \<or> l_status (loads ?s' ! lid) = Cancelled"
      unfolding cancels_def by blast
    moreover have "l_status (loads ?s' ! lid) \<noteq> Pending"
      using quiet [of lid] lt by (simp add: pending_def)
    ultimately show "l_status (loads ?s' ! lid) = Cancelled" using st by auto
  qed
  have "\<forall>lid. \<not> pending (empty_content ?s') lid"
    using quiet by (simp add: empty_content_def)
  with newest cancelled show ?thesis by (simp add: Let_def loadContents_def)
qed

theorem C2_witness:
  "pending (run example_services [SetInput example_extension]) 0
   \<and> l_status (loads (dispose_contentDisposables (run example_services [SetInput example_extension])) ! 0)
       = Cancelled
   \<and> Suc 0 = length (loads (run example_services [SetInput example_extension]))"
proof -
  have p: "pending (run example_services [SetInput example_extension]) 0" by code_simp
  with C2_pending_load_is_cancelled_first [of example_services "[SetInput example_extension]"]
  show ?thesis by (simp add: Let_def)
qed

text \<open>
  C7: in every state the editor can reach, the content element holds nodes of the README
  panel only or of the contributions panel only, never of both (no node belongs to both),
  and it is empty while a load is pending; every call of \<open>loadContents\<close> disposes the
  previous panel's disposables and empties the content element before the loading task of
  the new panel runs.
\<close>

theorem C7_content_holds_one_panel:
  "let s = run sv evs; s' = empty_content (dispose_contentDisposables s) in
     (list_all readme_node (content s) \<or> list_all contributions_node (content s))
     \<and> (\<forall>n. \<not> (readme_node n \<and> contributions_node n))
     \<and> (\<forall>lid. pending s lid \<longrightarrow> content s = [])
     \<and> content s' = [] \<and> contentDisposables s' = []
     \<and> loadContents loadingTask s = start_load loadingTask s'"
proof -
  have inv: "inv_loads (run sv evs)" by (rule inv_loads_run)
  have disjoint: "\<forall>n. \<not> (readme_node n \<and> contributions_node n)"
    by (auto simp: readme_node_def contributions_node_def no_readme_def dollar_def split: node.splits)
  have panel: "list_all readme_node (content (run sv evs)) \<or> list_all contributions_node (content (run sv evs))"
    using inv by (simp add: inv_loads_def content_ok_def)
  have empty: "\<forall>lid. pending (run sv evs) lid \<longrightarrow> content (run sv evs) = []"
    using inv by (simp add: inv_loads_def)
  from panel empty disjoint show ?thesis
    by (simp add: Let_def loadContents_def empty_content_def)
qed

theorem C7_witness:
  "pending (run example_services [SetInput example_extension, Click ''contributions'']) 1
   \<and> content (run example_services [SetInput example_extension, Click ''contributions'']) = []"
proof -
  have p: "pending (run example_services [SetInput example_extension, Click ''contributions'']) 1"
    by code_simp
  with C7_content_holds_one_panel [of example_services "[SetInput example_extension, Click ''contributions'']"]
  show ?thesis unfolding Let_def by blast
qed

section \<open>The caches\<close>


lemma map_update_same: "(map f xs)[i := f (xs ! i)] = map f xs"
  by (metis list_update_id map_update)

lemma load_keys_set_status [simp]: "load_keys (set_status lid st s) = load_keys s"
  using map_update_same [of "\<lambda>l. (l_target l, l_input l)" "loads s" lid]
  by (simp add: load_keys_def set_status_def map_update)

lemma cache_view_updates [simp]:
  "cache_view (s\<lparr>content := c\<rparr>) = cache_view s"
  "cache_view (s\<lparr>content_loading := b\<rparr>) = cache_view s"
  "cache_view (s\<lparr>contentDisposables := ds\<rparr>) = cache_view s"
  "cache_view (s\<lparr>transientDisposables := ds\<rparr>) = cache_view s"
  "cache_view (s\<lparr>navbar_actions := as\<rparr>) = cache_view s"
  "cache_view (s\<lparr>navbar_listeners := ls\<rparr>) = cache_view s"
  "cache_view (s\<lparr>readme_promises := rp\<rparr>) = cache_view s"
  "cache_view (s\<lparr>manifest_promises := mp\<rparr>) = cache_view s"
  "cache_view (s\<lparr>next_id := n\<rparr>) = cache_view s"
  by (simp_all add: cache_view_def load_keys_def)

lemma cache_view_set_status [simp]: "cache_view (set_status lid st s) = cache_view s"
  by (simp add: cache_view_def) (simp add: set_status_def)

lemma cache_view_show_no_readme [simp]: "cache_view (show_no_readme s) = cache_view s"
  by (simp add: show_no_readme_def)

lemma cache_view_display_readme [simp]: "cache_view (fst (display_readme sv body s)) = cache_view s"
  by (simp add: display_readme_def Let_def split: option.splits display_stage.splits)

lemma cache_view_readme_then [simp]: "cache_view (fst (readme_then sv r s)) = cache_view s"
proof -
  have "cache_view (fst (readme_chain sv r s)) = cache_view s"
    by (simp add: readme_chain_def split: sum.splits)
  then show ?thesis
    by (cases "readme_chain sv r s") (auto simp: readme_then_def split: sum.splits)
qed

lemma cache_view_manifest_then [simp]: "cache_view (fst (manifest_then sv r s)) = cache_view s"
  by (simp add: manifest_then_def split: sum.splits prod.splits option.splits)

text \<open>Which operations leave the record of cancellations as it is.\<close>

lemma no_cancel_iff:
  "no_cancel s = (\<forall>j < length (loads s). l_status (loads s ! j) \<noteq> Cancelled)"
  by (simp add: no_cancel_def list_all_length)

lemma no_cancel_updates [simp]:
  "no_cancel (s\<lparr>content := c\<rparr>) = no_cancel s"
  "no_cancel (s\<lparr>content_loading := b\<rparr>) = no_cancel s"
  "no_cancel (s\<lparr>contentDisposables := ds\<rparr>) = no_cancel s"
  "no_cancel (s\<lparr>transientDisposables := ds\<rparr>) = no_cancel s"
  "no_cancel (s\<lparr>navbar_actions := as\<rparr>) = no_cancel s"
  "no_cancel (s\<lparr>navbar_listeners := ls\<rparr>) = no_cancel s"
  "no_cancel (s\<lparr>readme_promises := rp\<rparr>) = no_cancel s"
  "no_cancel (s\<lparr>manifest_promises := mp\<rparr>) = no_cancel s"
  "no_cancel (s\<lparr>extensionReadme := cr\<rparr>) = no_cancel s"
  "no_cancel (s\<lparr>extensionManifest := cm\<rparr>) = no_cancel s"
  "no_cancel (s\<lparr>inputs := i\<rparr>) = no_cancel s"
  "no_cancel (s\<lparr>next_id := n\<rparr>) = no_cancel s"
  "no_cancel (show_no_readme s) = no_cancel s"
  by (simp_all add: no_cancel_def)

lemma no_cancel_same_loads: "loads s' = loads s \<Longrightarrow> no_cancel s' = no_cancel s"
  by (simp add: no_cancel_def)

lemma pending_same_loads: "loads s' = loads s \<Longrightarrow> pending s' = pending s"
  by (simp add: pending_def fun_eq_iff)

lemma no_cancel_set_status:
  "pending s lid \<Longrightarrow> st \<noteq> Cancelled \<Longrightarrow> no_cancel (set_status lid st s) = no_cancel s"
  by (auto simp: no_cancel_iff status_set_status pending_def) (metis status.distinct(5))


lemma no_cancel_readme_then:
  assumes "readme_then sv r s = (s', st)" and "pending s lid"
  shows "no_cancel (set_status lid st s') = no_cancel s"
proof -
  from readme_then_frame(1,7) [OF assms(1)] have l: "loads s' = loads s" and st: "st = Resolved" .
  from assms(2) have "pending s' lid" by (simp add: pending_same_loads [OF l])
  then show ?thesis using st no_cancel_same_loads [OF l] by (simp add: no_cancel_set_status)
qed

lemma no_cancel_manifest_then:
  assumes "manifest_then sv r s = (s', st)" and "pending s lid"
  shows "no_cancel (set_status lid st s') = no_cancel s"
proof -
  from manifest_then_frame(1) [OF assms(1)] have l: "loads s' = loads s" .
  have st: "st \<noteq> Cancelled"
    using assms(1) by (auto simp: manifest_then_def split: sum.splits prod.splits option.splits)
  from assms(2) have "pending s' lid" by (simp add: pending_same_loads [OF l])
  then show ?thesis using st no_cancel_same_loads [OF l] by (simp add: no_cancel_set_status)
qed

lemma no_cancel_continue_readme [simp]:
  "no_cancel (continue_readme sv r lid s) = no_cancel s"
proof (cases "readme_then sv r s")
  case (Pair s1 st)
  show ?thesis
  proof (cases "pending s lid")
    case True
    with no_cancel_readme_then [OF Pair True] Pair show ?thesis
      by (simp add: continue_readme_def pending_def)
  next
    case False
    then show ?thesis by (auto simp: continue_readme_def pending_def)
  qed
qed

lemma no_cancel_continue_manifest [simp]:
  "no_cancel (continue_manifest sv r lid s) = no_cancel s"
proof (cases "manifest_then sv r s")
  case (Pair s1 st)
  show ?thesis
  proof (cases "pending s lid")
    case True
    with no_cancel_manifest_then [OF Pair True] Pair show ?thesis
      by (simp add: continue_manifest_def pending_def)
  next
    case False
    then show ?thesis by (auto simp: continue_manifest_def pending_def)
  qed
qed

lemma no_cancel_fail_load [simp]: "no_cancel (fail_load lid s) = no_cancel s"
proof (cases "pending s lid")
  case True
  then have "pending (show_no_readme s) lid" by simp
  with True show ?thesis
    by (simp add: fail_load_def pending_def [of s] no_cancel_set_status split: target.splits)
next
  case False
  then show ?thesis by (auto simp: fail_load_def pending_def)
qed

lemma no_cancel_fold_fail_load [simp]: "no_cancel (fold fail_load ls s) = no_cancel s"
  by (induction ls arbitrary: s) simp_all

lemma no_cancel_cancel_fetch [simp]: "no_cancel (cancel_fetch t s) = no_cancel s"
  by (simp add: cancel_fetch_def Let_def split: target.splits)






lemma cache_view_continue_readme [simp]: "cache_view (continue_readme sv r lid s) = cache_view s"
proof (cases "readme_then sv r s")
  case (Pair s1 st)
  with cache_view_readme_then [of sv r s] show ?thesis
    by (simp add: continue_readme_def)
qed

lemma cache_view_continue_manifest [simp]: "cache_view (continue_manifest sv r lid s) = cache_view s"
proof (cases "manifest_then sv r s")
  case (Pair s1 st)
  with cache_view_manifest_then [of sv r s] show ?thesis
    by (simp add: continue_manifest_def)
qed
























section \<open>The navigation bar\<close>

lemma fail_load_nav [simp]:
  "navbar_listeners (fail_load lid s) = navbar_listeners s"
  "navbar_actions (fail_load lid s) = navbar_actions s"
  "transientDisposables (fail_load lid s) = transientDisposables s"
  by (simp_all add: fail_load_def show_no_readme_def split: target.splits)

lemma fold_fail_load_nav [simp]:
  "navbar_listeners (fold fail_load ls s) = navbar_listeners s"
  "navbar_actions (fold fail_load ls s) = navbar_actions s"
  "transientDisposables (fold fail_load ls s) = transientDisposables s"
  by (induction ls arbitrary: s) simp_all

lemma cancel_fetch_nav [simp]:
  "navbar_listeners (cancel_fetch t s) = navbar_listeners s"
  "navbar_actions (cancel_fetch t s) = navbar_actions s"
  "transientDisposables (cancel_fetch t s) = transientDisposables s"
  by (simp_all add: cancel_fetch_def Let_def split: target.splits)

lemma cancel_load_nav [simp]:
  "navbar_listeners (cancel_load lid s) = navbar_listeners s"
  "navbar_actions (cancel_load lid s) = navbar_actions s"
  "transientDisposables (cancel_load lid s) = transientDisposables s"
  by (simp_all add: cancel_load_def show_no_readme_def split: target.splits)

lemma dispose_one_nav [simp]:
  "navbar_listeners (dispose_one d s)
     = filter (\<lambda>l. d \<noteq> NavListenerD (fst l)) (navbar_listeners s)"
  "navbar_actions (dispose_one d s) = navbar_actions s"
  "transientDisposables (dispose_one d s) = transientDisposables s"
  by (cases d; simp add: dispose_one_def; metis)+

lemma dispose_nav [simp]:
  "navbar_listeners (dispose ds s)
     = filter (\<lambda>l. NavListenerD (fst l) \<notin> set ds) (navbar_listeners s)"
  "navbar_actions (dispose ds s) = navbar_actions s"
  "transientDisposables (dispose ds s) = transientDisposables s"
  unfolding dispose_def
  by (induction ds arbitrary: s) (auto intro: filter_cong)

lemma nav_free_not_listener: "nav_free ds \<Longrightarrow> NavListenerD n \<notin> set ds"
  by (auto simp: nav_free_def list_all_iff split: disposable.splits)

lemma loadContents_nav:
  assumes "task_ok task" and "nav_free (contentDisposables s)"
  shows "navbar_listeners (loadContents task s) = navbar_listeners s"
    and "navbar_actions (loadContents task s) = navbar_actions s"
    and "transientDisposables (loadContents task s) = transientDisposables s"
    and "nav_free (contentDisposables (loadContents task s))"
proof -
  let ?s2 = "empty_content (dispose_contentDisposables s)"
  have s2: "navbar_listeners ?s2 = navbar_listeners s" "navbar_actions ?s2 = navbar_actions s"
    "transientDisposables ?s2 = transientDisposables s" "contentDisposables ?s2 = []"
    using nav_free_not_listener [OF assms(2)]
    by (simp_all add: empty_content_def dispose_contentDisposables_def)
  have "navbar_listeners (start_load task ?s2) = navbar_listeners ?s2
      \<and> navbar_actions (start_load task ?s2) = navbar_actions ?s2
      \<and> transientDisposables (start_load task ?s2) = transientDisposables ?s2
      \<and> nav_free (contentDisposables (start_load task ?s2))"
  proof (cases "task ?s2")
    case None
    then show ?thesis using s2(4) by (simp add: start_load_def)
  next
    case (Some p)
    obtain lid s3 where p: "p = (lid, s3)" by (cases p)
    from assms(1) Some p have t: "navbar_listeners s3 = navbar_listeners ?s2"
      "navbar_actions s3 = navbar_actions ?s2" "transientDisposables s3 = transientDisposables ?s2"
      "nav_free (contentDisposables ?s2) \<longrightarrow> nav_free (contentDisposables s3)"
      unfolding task_ok_def by blast+
    with s2(4) show ?thesis using Some p by (simp add: start_load_def Let_def)
  qed
  with s2 show "navbar_listeners (loadContents task s) = navbar_listeners s"
    and "navbar_actions (loadContents task s) = navbar_actions s"
    and "transientDisposables (loadContents task s) = transientDisposables s"
    and "nav_free (contentDisposables (loadContents task s))"
    by (simp_all add: loadContents_def)
qed

lemma onNavbarChange_nav:
  assumes "nav_free (contentDisposables s)"
  shows "navbar_listeners (onNavbarChange sv ext ident s) = navbar_listeners s"
    and "navbar_actions (onNavbarChange sv ext ident s) = navbar_actions s"
    and "transientDisposables (onNavbarChange sv ext ident s) = transientDisposables s"
    and "nav_free (contentDisposables (onNavbarChange sv ext ident s))"
  using assms loadContents_nav [OF task_ok_openReadme assms, of sv]
    loadContents_nav [OF task_ok_openContributions assms, of sv]
  by (simp_all add: onNavbarChange_def openReadme_def openContributions_def)

lemma fold_onNavbarChange_nav:
  assumes "nav_free (contentDisposables s)"
  shows "navbar_listeners (fold (\<lambda>l. onNavbarChange sv (snd l) ident) ls s) = navbar_listeners s
    \<and> navbar_actions (fold (\<lambda>l. onNavbarChange sv (snd l) ident) ls s) = navbar_actions s
    \<and> transientDisposables (fold (\<lambda>l. onNavbarChange sv (snd l) ident) ls s) = transientDisposables s
    \<and> nav_free (contentDisposables (fold (\<lambda>l. onNavbarChange sv (snd l) ident) ls s))"
  using assms
proof (induction ls arbitrary: s)
  case Nil
  then show ?case by simp
next
  case (Cons l ls)
  from onNavbarChange_nav [OF Cons.prems, of sv "snd l" ident] Cons.IH [of "onNavbarChange sv (snd l) ident s"]
  show ?case by simp
qed

lemma fire_nav:
  assumes "nav_free (contentDisposables s)"
  shows "navbar_listeners (fire sv ident s) = navbar_listeners s"
    and "navbar_actions (fire sv ident s) = navbar_actions s"
    and "transientDisposables (fire sv ident s) = transientDisposables s"
    and "nav_free (contentDisposables (fire sv ident s))"
  using fold_onNavbarChange_nav [OF assms, of sv ident "navbar_listeners s"]
  by (simp_all add: fire_def)

lemma navbar_run_nav:
  assumes "nav_free (contentDisposables s)"
  shows "navbar_listeners (navbar_run sv ident s) = navbar_listeners s"
    and "navbar_actions (navbar_run sv ident s) = map (\<lambda>a. a\<lparr>a_enabled := (a_id a \<noteq> ident)\<rparr>) (navbar_actions s)"
    and "transientDisposables (navbar_run sv ident s) = transientDisposables s"
    and "nav_free (contentDisposables (navbar_run sv ident s))"
  using fire_nav [OF assms, of sv ident]
  by (simp_all add: navbar_run_def Let_def)

lemma inv_nav_navbar_run:
  assumes "inv_nav s"
  shows "inv_nav (navbar_run sv ident s)"
proof -
  from assms have nf: "nav_free (contentDisposables s)" by (simp add: inv_nav_def)
  from navbar_run_nav [OF nf, of sv ident] assms show ?thesis by (simp add: inv_nav_def)
qed

lemma new_input_nav:
  assumes "inv_nav s"
  shows "navbar_listeners (new_input sv ext s) = []"
    and "nav_free (contentDisposables (new_input sv ext s))"
    and "transientDisposables (new_input sv ext s)
       = [OtherD ''icon error'', OtherD ''install'', OtherD ''ratings'',
          OtherD ''enableAction'', OtherD ''updateAction'', OtherD ''installAction'']"
proof -
  from assms have "filter (\<lambda>l. NavListenerD (fst l) \<notin> set (transientDisposables s)) (navbar_listeners s) = []"
    by (auto simp: inv_nav_def list_all_iff filter_empty_conv)
  then show "navbar_listeners (new_input sv ext s) = []"
    by (simp add: new_input_def Let_def)
  show "nav_free (contentDisposables (new_input sv ext s))"
    using assms by (simp add: new_input_def Let_def inv_nav_def)
  show "transientDisposables (new_input sv ext s)
       = [OtherD ''icon error'', OtherD ''install'', OtherD ''ratings'',
          OtherD ''enableAction'', OtherD ''updateAction'', OtherD ''installAction'']"
    by (simp add: new_input_def Let_def)
qed

lemma setInput_nav:
  assumes "inv_nav s"
  shows "navbar_listeners (setInput sv ext s) = [(next_id (new_input sv ext s), ext)]"
    and "navbar_actions (setInput sv ext s)
       = [\<lparr>a_id = NavbarSection_Readme, a_label = localize ''details'' ''Details'', a_enabled = False\<rparr>,
          \<lparr>a_id = NavbarSection_Contributions, a_label = localize ''contributions'' ''Contributions'', a_enabled = True\<rparr>]"
    and "inv_nav (setInput sv ext s)"
proof -
  let ?s3 = "new_input sv ext s"
  let ?s5 = "navbar_onChange ext (navbar_clear ?s3)"
  let ?a1 = "\<lparr>a_id = NavbarSection_Readme, a_label = localize ''details'' ''Details'', a_enabled = True\<rparr>"
  let ?s5a = "?s5\<lparr>navbar_actions := navbar_actions ?s5 @ [?a1]\<rparr>"
  let ?s6 = "navbar_push sv NavbarSection_Readme (localize ''details'' ''Details'') ?s5"
  let ?a2 = "\<lparr>a_id = NavbarSection_Contributions, a_label = localize ''contributions'' ''Contributions'', a_enabled = True\<rparr>"
  let ?s7 = "navbar_push sv NavbarSection_Contributions (localize ''contributions'' ''Contributions'') ?s6"
  note n3 = new_input_nav [OF assms, of sv ext]
  have s5: "navbar_listeners ?s5 = [(next_id ?s3, ext)]" "navbar_actions ?s5 = []"
    "nav_free (contentDisposables ?s5)"
    "transientDisposables ?s5 = transientDisposables ?s3 @ [NavListenerD (next_id ?s3)]"
    using n3 by (simp_all add: navbar_onChange_def navbar_clear_def)
  have s6eq: "?s6 = navbar_run sv NavbarSection_Readme ?s5a"
    using s5(2) by (simp add: navbar_push_def Let_def)
  have nf5a: "nav_free (contentDisposables ?s5a)" using s5(3) by simp
  note r = navbar_run_nav [OF nf5a, of sv NavbarSection_Readme]
  have s6: "navbar_listeners ?s6 = [(next_id ?s3, ext)]"
    "navbar_actions ?s6 = [?a1\<lparr>a_enabled := False\<rparr>]"
    "nav_free (contentDisposables ?s6)"
    "transientDisposables ?s6 = transientDisposables ?s3 @ [NavListenerD (next_id ?s3)]"
    unfolding s6eq using r s5 by simp_all
  have s7eq: "?s7 = ?s6\<lparr>navbar_actions := navbar_actions ?s6 @ [?a2]\<rparr>"
    using s6(2) by (simp add: navbar_push_def Let_def)
  have res: "setInput sv ext s = ?s7\<lparr>content := []\<rparr>" by (simp add: setInput_def Let_def)
  show "navbar_listeners (setInput sv ext s) = [(next_id (new_input sv ext s), ext)]"
    unfolding res s7eq using s6(1) by simp
  show "navbar_actions (setInput sv ext s)
       = [\<lparr>a_id = NavbarSection_Readme, a_label = localize ''details'' ''Details'', a_enabled = False\<rparr>,
          \<lparr>a_id = NavbarSection_Contributions, a_label = localize ''contributions'' ''Contributions'', a_enabled = True\<rparr>]"
    unfolding res s7eq using s6(2) by simp
  show "inv_nav (setInput sv ext s)"
    unfolding res s7eq using s6 by (simp add: inv_nav_def)
qed

lemma inv_nav_continue_readme:
  assumes "inv_nav s"
  shows "inv_nav (continue_readme sv r lid s)"
proof (cases "readme_then sv r s")
  case (Pair s1 st)
  note th = readme_then_frame [OF Pair]
  from assms th(2,4,6,8) show ?thesis
    by (simp add: continue_readme_def Pair inv_nav_def)
qed

lemma inv_nav_continue_manifest:
  assumes "inv_nav s"
  shows "inv_nav (continue_manifest sv r lid s)"
proof (cases "manifest_then sv r s")
  case (Pair s1 st)
  note th = manifest_then_frame [OF Pair]
  from assms th(2,4,6) show ?thesis
    by (simp add: continue_manifest_def Pair inv_nav_def)
qed

lemma inv_nav_updates:
  "inv_nav (s\<lparr>readme_promises := rp\<rparr>) = inv_nav s"
  "inv_nav (s\<lparr>manifest_promises := mp\<rparr>) = inv_nav s"
  by (simp_all add: inv_nav_def)

lemma inv_nav_step:
  assumes "inv_nav s"
  shows "inv_nav (step sv s ev)"
proof (cases ev)
  case (SetInput ext)
  with setInput_nav(3) [OF assms] show ?thesis by (simp add: step_def)
next
  case (Click ident)
  with inv_nav_navbar_run [OF assms] show ?thesis using assms by (simp add: step_def)
next
  case (ReadmeArrives f r)
  have "inv_nav (s\<lparr>readme_promises := (readme_promises s)[f := Some r]\<rparr>)"
    using assms by (simp add: inv_nav_updates)
  then have "\<And>ws. inv_nav (fold (continue_readme sv r) ws (s\<lparr>readme_promises := (readme_promises s)[f := Some r]\<rparr>))"
    by (rule fold_invariant [where P = inv_nav]) (rule inv_nav_continue_readme)
  with assms ReadmeArrives show ?thesis by (simp add: step_def readme_arrives_def Let_def)
next
  case (ManifestArrives f r)
  have "inv_nav (s\<lparr>manifest_promises := (manifest_promises s)[f := Some r]\<rparr>)"
    using assms by (simp add: inv_nav_updates)
  then have "\<And>ws. inv_nav (fold (continue_manifest sv r) ws (s\<lparr>manifest_promises := (manifest_promises s)[f := Some r]\<rparr>))"
    by (rule fold_invariant [where P = inv_nav]) (rule inv_nav_continue_manifest)
  with assms ManifestArrives show ?thesis by (simp add: step_def manifest_arrives_def Let_def)
qed

lemma inv_nav_initial: "inv_nav initial"
  by (simp add: inv_nav_def initial_def)

lemma inv_nav_run: "inv_nav (run sv evs)"
  unfolding run_def
  by (rule foldl_invariant [where P = inv_nav]) (simp_all add: inv_nav_step inv_nav_initial)

subsection \<open>The fetch that a cache holds\<close>

lemma caches_ok_same_view: "caches_ok p s \<Longrightarrow> fetch_view s' = fetch_view s \<Longrightarrow> caches_ok p s'"
  by (simp add: caches_ok_def fetch_view_def)

lemma fetch_view_updates [simp]:
  "fetch_view (s\<lparr>content := c\<rparr>) = fetch_view s"
  "fetch_view (s\<lparr>content_loading := b\<rparr>) = fetch_view s"
  "fetch_view (s\<lparr>contentDisposables := ds\<rparr>) = fetch_view s"
  "fetch_view (s\<lparr>transientDisposables := ds\<rparr>) = fetch_view s"
  "fetch_view (s\<lparr>navbar_actions := as\<rparr>) = fetch_view s"
  "fetch_view (s\<lparr>navbar_listeners := ls\<rparr>) = fetch_view s"
  "fetch_view (s\<lparr>loads := l\<rparr>) = fetch_view s"
  "fetch_view (s\<lparr>inputs := i\<rparr>) = fetch_view s"
  "fetch_view (s\<lparr>getReadme_calls := cs\<rparr>) = fetch_view s"
  "fetch_view (s\<lparr>getManifest_calls := cs\<rparr>) = fetch_view s"
  "fetch_view (s\<lparr>next_id := n\<rparr>) = fetch_view s"
  by (simp_all add: fetch_view_def)

lemma fetch_view_set_status [simp]: "fetch_view (set_status lid st s) = fetch_view s"
  by (simp add: set_status_def)

lemma fetch_view_show_no_readme [simp]: "fetch_view (show_no_readme s) = fetch_view s"
  by (simp add: show_no_readme_def)

lemma fetch_view_display_readme [simp]: "fetch_view (fst (display_readme sv body s)) = fetch_view s"
  by (simp add: display_readme_def Let_def split: option.splits display_stage.splits)

lemma fetch_view_readme_then [simp]: "fetch_view (fst (readme_then sv r s)) = fetch_view s"
proof -
  have "fetch_view (fst (readme_chain sv r s)) = fetch_view s"
    by (simp add: readme_chain_def split: sum.splits)
  then show ?thesis
    by (cases "readme_chain sv r s") (auto simp: readme_then_def split: sum.splits)
qed

lemma fetch_view_manifest_then [simp]: "fetch_view (fst (manifest_then sv r s)) = fetch_view s"
  by (simp add: manifest_then_def split: sum.splits prod.splits option.splits)

lemma fetch_view_continue_readme [simp]: "fetch_view (continue_readme sv r lid s) = fetch_view s"
proof (cases "readme_then sv r s")
  case (Pair s1 st)
  with fetch_view_readme_then [of sv r s] show ?thesis
    by (simp add: continue_readme_def)
qed

lemma fetch_view_continue_manifest [simp]: "fetch_view (continue_manifest sv r lid s) = fetch_view s"
proof (cases "manifest_then sv r s")
  case (Pair s1 st)
  with fetch_view_manifest_then [of sv r s] show ?thesis
    by (simp add: continue_manifest_def)
qed

lemma fetch_view_fail_load [simp]: "fetch_view (fail_load lid s) = fetch_view s"
  by (simp add: fail_load_def split: target.splits)

lemma fetch_view_fold_fail_load [simp]: "fetch_view (fold fail_load ls s) = fetch_view s"
  by (induction ls arbitrary: s) simp_all

lemma valid_cache_forget: "valid_cache co n \<Longrightarrow> valid_cache (forget f co) n"
  by (auto simp: valid_cache_def forget_def split: option.splits)

lemma forget_None [simp]: "(forget f co = None) = (co = None)"
  by (simp add: forget_def split: option.splits)

lemma caches_ok_cancel_fetch:
  assumes "caches_ok p s"
  shows "caches_ok p (cancel_fetch t s)"
proof -
  have r: "\<And>f. caches_ok p (s\<lparr>readme_promises := (readme_promises s)[f := Some (Inl Canceled)],
                              extensionReadme := forget f (extensionReadme s)\<rparr>)"
    and m: "\<And>f. caches_ok p (s\<lparr>manifest_promises := (manifest_promises s)[f := Some (Inl Canceled)],
                              extensionManifest := forget f (extensionManifest s)\<rparr>)"
    using assms by (simp_all add: caches_ok_def valid_cache_forget)
  show ?thesis
    using assms caches_ok_same_view [OF r] caches_ok_same_view [OF m]
    by (simp add: cancel_fetch_def Let_def split: target.splits)
qed

lemma caches_ok_cancel_load:
  assumes "caches_ok p s"
  shows "caches_ok p (cancel_load lid s)"
proof -
  have "\<And>t u. fetch_view u = fetch_view s \<Longrightarrow> caches_ok p (cancel_fetch t u)"
    using caches_ok_cancel_fetch caches_ok_same_view [OF assms] by blast
  then show ?thesis using assms
    by (simp add: cancel_load_def split: target.splits)
qed

lemma caches_ok_dispose_one:
  assumes "caches_ok p s"
  shows "caches_ok p (dispose_one d s)"
proof (cases d)
  case (CancelLoad lid)
  with assms show ?thesis by (simp add: dispose_one_def caches_ok_cancel_load)
qed (use assms in \<open>auto simp: dispose_one_def intro: caches_ok_same_view\<close>)

lemma caches_ok_dispose:
  assumes "caches_ok p s"
  shows "caches_ok p (dispose ds s)"
  unfolding dispose_def
  by (rule fold_invariant [where P = "caches_ok p"]) (simp_all add: assms caches_ok_dispose_one)

lemma extensionReadme_get_ok:
  assumes "extensionReadme_get s = Some (f, s')" and "caches_ok p s"
  shows "caches_ok p s'" and "f < length (readme_promises s')"
  using assms
  by (auto simp: extensionReadme_get_def Let_def caches_ok_def valid_cache_def split: option.splits)

lemma extensionManifest_get_ok:
  assumes "extensionManifest_get s = Some (f, s')" and "caches_ok p s"
  shows "caches_ok p s'" and "f < length (manifest_promises s')"
  using assms
  by (auto simp: extensionManifest_get_def Let_def caches_ok_def valid_cache_def split: option.splits)


lemma caches_ok_openReadme_task:
  assumes "openReadme_task sv s = Some (lid, s')" and "caches_ok p s"
  shows "caches_ok p s'"
proof -
  from assms(1) obtain f s1 where g: "extensionReadme_get s = Some (f, s1)"
    by (auto simp: openReadme_task_def split: option.splits)
  let ?s2 = "s1\<lparr>loads := loads s1 @ [\<lparr>l_target = ReadmeFetch f, l_input = inputs s1, l_status = Pending\<rparr>]\<rparr>"
  have 2: "caches_ok p ?s2"
    by (rule caches_ok_same_view [OF extensionReadme_get_ok(1) [OF g assms(2)]]) simp
  have "fetch_view s' = fetch_view ?s2"
  proof (cases "readme_promises ?s2 ! f")
    case None
    with assms(1) g show ?thesis by (simp add: openReadme_task_def Let_def)
  next
    case (Some r)
    obtain s3 st where t: "readme_then sv r ?s2 = (s3, st)" by (cases "readme_then sv r ?s2")
    with assms(1) g Some have "s' = set_status (length (loads s1)) st s3"
      by (auto simp: openReadme_task_def Let_def)
    with fetch_view_readme_then [of sv r ?s2] t show ?thesis by simp
  qed
  with 2 show ?thesis by (rule caches_ok_same_view)
qed

lemma caches_ok_openContributions_task:
  assumes "openContributions_task sv s = Some (lid, s')" and "caches_ok p s"
  shows "caches_ok p s'"
proof -
  from assms(1) obtain f s1 where g: "extensionManifest_get s = Some (f, s1)"
    by (auto simp: openContributions_task_def split: option.splits)
  let ?s2 = "s1\<lparr>loads := loads s1 @ [\<lparr>l_target = ManifestFetch f, l_input = inputs s1, l_status = Pending\<rparr>]\<rparr>"
  have 2: "caches_ok p ?s2"
    by (rule caches_ok_same_view [OF extensionManifest_get_ok(1) [OF g assms(2)]]) simp
  have "fetch_view s' = fetch_view ?s2"
  proof (cases "manifest_promises ?s2 ! f")
    case None
    with assms(1) g show ?thesis by (simp add: openContributions_task_def Let_def)
  next
    case (Some r)
    obtain s3 st where t: "manifest_then sv r ?s2 = (s3, st)" by (cases "manifest_then sv r ?s2")
    with assms(1) g Some have "s' = set_status (length (loads s1)) st s3"
      by (auto simp: openContributions_task_def Let_def)
    with fetch_view_manifest_then [of sv r ?s2] t show ?thesis by simp
  qed
  with 2 show ?thesis by (rule caches_ok_same_view)
qed

lemma caches_ok_start_load:
  assumes "caches_ok p s" and "\<And>lid s'. task s = Some (lid, s') \<Longrightarrow> caches_ok p s'"
  shows "caches_ok p (start_load task s)"
proof (cases "task s")
  case None
  with assms(1) show ?thesis by (simp add: start_load_def)
next
  case (Some q)
  obtain lid s1 where q: "q = (lid, s1)" by (cases q)
  with Some assms(2) have "caches_ok p s1" by simp
  then show ?thesis
    by (rule caches_ok_same_view) (simp add: start_load_def Let_def Some q)
qed

lemma caches_ok_before_load:
  assumes "caches_ok p s"
  shows "caches_ok p (empty_content (dispose_contentDisposables s))"
proof -
  have "caches_ok p (dispose (contentDisposables s) s)"
    by (rule caches_ok_dispose [OF assms])
  then show ?thesis
    by (rule caches_ok_same_view) (simp add: empty_content_def dispose_contentDisposables_def)
qed

lemma caches_ok_loadContents:
  assumes "caches_ok p s" and "\<And>t lid s'. caches_ok p t \<Longrightarrow> task t = Some (lid, s') \<Longrightarrow> caches_ok p s'"
  shows "caches_ok p (loadContents task s)"
  unfolding loadContents_def
  using caches_ok_before_load [OF assms(1)] assms(2) by (blast intro: caches_ok_start_load)

lemma caches_ok_onNavbarChange:
  assumes "caches_ok p s"
  shows "caches_ok p (onNavbarChange sv ext ident s)"
  using assms
  by (auto simp: onNavbarChange_def openReadme_def openContributions_def
      intro!: caches_ok_loadContents intro: caches_ok_openReadme_task caches_ok_openContributions_task)

lemma caches_ok_navbar_run:
  assumes "caches_ok p s"
  shows "caches_ok p (navbar_run sv ident s)"
proof -
  have "caches_ok p (fire sv ident s)"
    unfolding fire_def
    by (rule fold_invariant [where P = "caches_ok p"]) (simp_all add: assms caches_ok_onNavbarChange)
  then show ?thesis by (rule caches_ok_same_view) (simp add: navbar_run_def Let_def)
qed

lemma caches_ok_navbar_push:
  assumes "caches_ok p s"
  shows "caches_ok p (navbar_push sv ident label s)"
proof -
  have "caches_ok p (s\<lparr>navbar_actions := navbar_actions s @ [\<lparr>a_id = ident, a_label = label, a_enabled = True\<rparr>]\<rparr>)"
    (is "caches_ok p ?s1")
    by (rule caches_ok_same_view [OF assms]) simp
  moreover have "navbar_push sv ident label s = navbar_run sv ident ?s1 \<or> navbar_push sv ident label s = ?s1"
    by (simp add: navbar_push_def Let_def)
  ultimately show ?thesis using caches_ok_navbar_run [of p ?s1 sv ident] by auto
qed

lemma caches_ok_new_input:
  assumes "caches_ok p s"
  shows "caches_ok True (new_input sv ext s)"
proof -
  have "caches_ok p (dispose (transientDisposables s) s)"
    by (rule caches_ok_dispose [OF assms])
  then show ?thesis
    by (simp add: new_input_def Let_def caches_ok_def valid_cache_def)
qed

lemma caches_ok_setInput:
  assumes "caches_ok p s"
  shows "caches_ok True (setInput sv ext s)"
proof -
  let ?s5 = "navbar_onChange ext (navbar_clear (new_input sv ext s))"
  let ?s7 = "navbar_push sv NavbarSection_Contributions (localize ''contributions'' ''Contributions'')
      (navbar_push sv NavbarSection_Readme (localize ''details'' ''Details'') ?s5)"
  have "caches_ok True (new_input sv ext s)" by (rule caches_ok_new_input [OF assms])
  then have "caches_ok True ?s5"
    by (rule caches_ok_same_view) (simp add: navbar_onChange_def navbar_clear_def)
  then have 7: "caches_ok True ?s7" by (intro caches_ok_navbar_push)
  have "setInput sv ext s = ?s7\<lparr>content := []\<rparr>" by (simp add: setInput_def Let_def)
  with caches_ok_same_view [OF 7, of "?s7\<lparr>content := []\<rparr>"] show ?thesis by simp
qed

lemma caches_ok_weaken: "caches_ok True s \<Longrightarrow> caches_ok p s"
  by (simp add: caches_ok_def)

lemma caches_ok_readme_arrives:
  assumes "caches_ok p s"
  shows "caches_ok p (readme_arrives sv f r s)"
proof -
  have 1: "caches_ok p (s\<lparr>readme_promises := (readme_promises s)[f := Some r]\<rparr>)"
    using assms by (simp add: caches_ok_def)
  have "\<And>ws. caches_ok p (fold (continue_readme sv r) ws (s\<lparr>readme_promises := (readme_promises s)[f := Some r]\<rparr>))"
    by (rule fold_invariant [where P = "caches_ok p", OF 1]) (erule caches_ok_same_view, simp)
  with assms show ?thesis by (simp add: readme_arrives_def Let_def)
qed

lemma caches_ok_manifest_arrives:
  assumes "caches_ok p s"
  shows "caches_ok p (manifest_arrives sv f r s)"
proof -
  have 1: "caches_ok p (s\<lparr>manifest_promises := (manifest_promises s)[f := Some r]\<rparr>)"
    using assms by (simp add: caches_ok_def)
  have "\<And>ws. caches_ok p (fold (continue_manifest sv r) ws (s\<lparr>manifest_promises := (manifest_promises s)[f := Some r]\<rparr>))"
    by (rule fold_invariant [where P = "caches_ok p", OF 1]) (erule caches_ok_same_view, simp)
  with assms show ?thesis by (simp add: manifest_arrives_def Let_def)
qed

lemma caches_ok_step:
  assumes "caches_ok p s"
  shows "caches_ok p (step sv s ev)"
  using assms caches_ok_weaken [OF caches_ok_setInput [OF assms]]
  by (cases ev)
     (simp_all add: step_def caches_ok_navbar_run caches_ok_readme_arrives caches_ok_manifest_arrives)

lemma caches_ok_initial: "caches_ok False initial"
  by (simp add: caches_ok_def valid_cache_def initial_def)

lemma caches_ok_run: "caches_ok False (run sv evs)"
  unfolding run_def
  by (rule foldl_invariant [where P = "caches_ok False"]) (simp_all add: caches_ok_initial caches_ok_step)

subsection \<open>What a load shows\<close>

text \<open>What the chain of a panel leaves in the content element.\<close>

lemma readme_then_content:
  "content (fst (readme_then sv r s)) = content s @ readme_panel sv (next_id s) r"
  by (simp add: readme_then_def readme_chain_def display_readme_def Let_def readme_panel_def
        append_node_def show_no_readme_def split: sum.splits option.splits display_stage.splits)

lemma manifest_then_content:
  "content s = [] \<Longrightarrow> content (fst (manifest_then sv r s)) = contributions_panel sv r"
  by (simp add: manifest_then_def contributions_panel_def split: sum.splits prod.splits option.splits)

lemma next_id_frame [simp]:
  "next_id (set_status lid st s) = next_id s"
  "next_id (show_no_readme s) = next_id s"
  "next_id (fail_load lid s) = next_id s"
  by (simp_all add: set_status_def show_no_readme_def fail_load_def split: target.splits)

lemma next_id_fold_fail_load [simp]: "next_id (fold fail_load ls s) = next_id s"
  by (induction ls arbitrary: s) simp_all

lemma next_id_cancel_load [simp]: "next_id (cancel_load lid s) = next_id s"
  by (simp add: cancel_load_def cancel_fetch_def Let_def split: target.splits)

lemma next_id_dispose_one [simp]: "next_id (dispose_one d s) = next_id s"
  by (simp add: dispose_one_def split: disposable.splits)

lemma next_id_dispose [simp]: "next_id (dispose ds s) = next_id s"
  unfolding dispose_def by (induction ds arbitrary: s) simp_all

lemma before_load_frame:
  "content (empty_content (dispose_contentDisposables s)) = []"
  "length (loads (empty_content (dispose_contentDisposables s))) = length (loads s)"
  "next_id (empty_content (dispose_contentDisposables s)) = next_id s"
  by (simp_all add: empty_content_def dispose_contentDisposables_def)

lemma openReadme_task_shows:
  assumes ok: "caches_ok True s" and empty: "content s = []"
  shows "\<exists>f s'. openReadme_task sv s = Some (length (loads s), s')
      \<and> length (loads s') = Suc (length (loads s))
      \<and> l_target (loads s' ! length (loads s)) = ReadmeFetch f
      \<and> f < length (readme_promises s')
      \<and> (case readme_promises s' ! f of
            None \<Rightarrow> pending s' (length (loads s)) \<and> content s' = [] \<and> next_id s' = next_id s
          | Some r \<Rightarrow> content s' = readme_panel sv (next_id s) r)"
proof -
  from ok obtain c where c: "extensionReadme s = Some c" by (auto simp: caches_ok_def)
  then obtain f s1 where g: "extensionReadme_get s = Some (f, s1)"
    by (cases "c_promise c") (auto simp: extensionReadme_get_def Let_def)
  note lt = extensionReadme_get_ok(2) [OF g ok]
  note fr = extensionReadme_get_frame [OF g]
  have nid: "next_id s1 = next_id s"
    using g c by (auto simp: extensionReadme_get_def Let_def split: option.splits)
  let ?lid = "length (loads s)"
  let ?s2 = "s1\<lparr>loads := loads s1 @ [\<lparr>l_target = ReadmeFetch f, l_input = inputs s1, l_status = Pending\<rparr>]\<rparr>"
  show ?thesis
  proof (cases "readme_promises s1 ! f")
    case None
    then have "openReadme_task sv s = Some (?lid, ?s2)"
      using g fr(1) by (simp add: openReadme_task_def Let_def)
    moreover have "pending ?s2 ?lid" using fr(1) by (simp add: pending_def)
    ultimately show ?thesis
      using None lt fr(1,2) empty nid by (intro exI [of _ f] exI [of _ ?s2]) simp
  next
    case (Some r)
    obtain s3 st where t: "readme_then sv r ?s2 = (s3, st)" by (cases "readme_then sv r ?s2")
    have task: "openReadme_task sv s = Some (?lid, set_status ?lid st s3)"
      using g fr(1) Some t by (simp add: openReadme_task_def Let_def)
    have l3: "loads s3 = loads ?s2" by (rule readme_then_frame(1) [OF t])
    have "fetch_view s3 = fetch_view ?s2" using fetch_view_readme_then [of sv r ?s2] t by simp
    then have p3: "readme_promises s3 = readme_promises s1" by (simp add: fetch_view_def)
    have "content s3 = content ?s2 @ readme_panel sv (next_id ?s2) r"
      using readme_then_content [of sv r ?s2] t by simp
    then have c3: "content s3 = readme_panel sv (next_id s) r" using fr(2) empty nid by simp
    have tg: "l_target (loads (set_status ?lid st s3) ! ?lid) = ReadmeFetch f"
      using l3 fr(1) by (simp add: set_status_def)
    have pr: "readme_promises (set_status ?lid st s3) = readme_promises s1"
      using p3 by (simp add: set_status_def)
    show ?thesis
      using task tg pr lt Some c3 l3 fr(1)
      by (intro exI [of _ f] exI [of _ "set_status ?lid st s3"]) simp
  qed
qed

lemma openContributions_task_shows:
  assumes ok: "caches_ok True s" and empty: "content s = []"
  shows "\<exists>f s'. openContributions_task sv s = Some (length (loads s), s')
      \<and> length (loads s') = Suc (length (loads s))
      \<and> l_target (loads s' ! length (loads s)) = ManifestFetch f
      \<and> f < length (manifest_promises s')
      \<and> (case manifest_promises s' ! f of
            None \<Rightarrow> pending s' (length (loads s)) \<and> content s' = []
          | Some r \<Rightarrow> content s' = contributions_panel sv r)"
proof -
  from ok obtain c where c: "extensionManifest s = Some c" by (auto simp: caches_ok_def)
  then obtain f s1 where g: "extensionManifest_get s = Some (f, s1)"
    by (cases "c_promise c") (auto simp: extensionManifest_get_def Let_def)
  note lt = extensionManifest_get_ok(2) [OF g ok]
  note fr = extensionManifest_get_frame [OF g]
  let ?lid = "length (loads s)"
  let ?s2 = "s1\<lparr>loads := loads s1 @ [\<lparr>l_target = ManifestFetch f, l_input = inputs s1, l_status = Pending\<rparr>]\<rparr>"
  show ?thesis
  proof (cases "manifest_promises s1 ! f")
    case None
    then have "openContributions_task sv s = Some (?lid, ?s2)"
      using g fr(1) by (simp add: openContributions_task_def Let_def)
    moreover have "pending ?s2 ?lid" using fr(1) by (simp add: pending_def)
    ultimately show ?thesis
      using None lt fr(1,2) empty by (intro exI [of _ f] exI [of _ ?s2]) simp
  next
    case (Some r)
    obtain s3 st where t: "manifest_then sv r ?s2 = (s3, st)" by (cases "manifest_then sv r ?s2")
    have task: "openContributions_task sv s = Some (?lid, set_status ?lid st s3)"
      using g fr(1) Some t by (simp add: openContributions_task_def Let_def)
    have l3: "loads s3 = loads ?s2" by (rule manifest_then_frame(1) [OF t])
    have "fetch_view s3 = fetch_view ?s2" using fetch_view_manifest_then [of sv r ?s2] t by simp
    then have p3: "manifest_promises s3 = manifest_promises s1" by (simp add: fetch_view_def)
    have "content ?s2 = []" using fr(2) empty by simp
    from manifest_then_content [OF this, of sv r] t
    have c3: "content s3 = contributions_panel sv r" by simp
    have tg: "l_target (loads (set_status ?lid st s3) ! ?lid) = ManifestFetch f"
      using l3 fr(1) by (simp add: set_status_def)
    have pr: "manifest_promises (set_status ?lid st s3) = manifest_promises s1"
      using p3 by (simp add: set_status_def)
    show ?thesis
      using task tg pr lt Some c3 l3 fr(1)
      by (intro exI [of _ f] exI [of _ "set_status ?lid st s3"]) simp
  qed
qed

lemma start_load_frame:
  assumes "task s = Some (lid, s')"
  shows "loads (start_load task s) = loads s'" and "content (start_load task s) = content s'"
    and "readme_promises (start_load task s) = readme_promises s'"
    and "manifest_promises (start_load task s) = manifest_promises s'"
    and "next_id (start_load task s) = next_id s'"
  using assms by (simp_all add: start_load_def Let_def)

lemma openReadme_shows:
  assumes "caches_ok True s"
  shows "\<exists>f. length (loads (openReadme sv ext s)) = Suc (length (loads s))
      \<and> l_target (loads (openReadme sv ext s) ! length (loads s)) = ReadmeFetch f
      \<and> f < length (readme_promises (openReadme sv ext s))
      \<and> (case readme_promises (openReadme sv ext s) ! f of
            None \<Rightarrow> pending (openReadme sv ext s) (length (loads s))
                \<and> content (openReadme sv ext s) = []
                \<and> next_id (openReadme sv ext s) = next_id s
          | Some r \<Rightarrow> content (openReadme sv ext s) = readme_panel sv (next_id s) r)"
proof -
  let ?d = "empty_content (dispose_contentDisposables s)"
  from openReadme_task_shows [OF caches_ok_before_load [OF assms] before_load_frame(1), of sv]
  obtain f s' where t: "openReadme_task sv ?d = Some (length (loads ?d), s')"
    and p: "length (loads s') = Suc (length (loads ?d))"
      "l_target (loads s' ! length (loads ?d)) = ReadmeFetch f"
      "f < length (readme_promises s')"
      "case readme_promises s' ! f of
            None \<Rightarrow> pending s' (length (loads ?d)) \<and> content s' = [] \<and> next_id s' = next_id ?d
          | Some r \<Rightarrow> content s' = readme_panel sv (next_id ?d) r"
    by blast
  note fr = start_load_frame [where task = "openReadme_task sv", OF t]
  have pe: "pending (openReadme sv ext s) = pending s'"
    unfolding openReadme_def loadContents_def by (rule pending_same_loads [OF fr(1)])
  show ?thesis
    using p fr pe unfolding openReadme_def loadContents_def
    by (intro exI [of _ f]) (auto simp: before_load_frame split: option.splits)
qed

lemma openContributions_shows:
  assumes "caches_ok True s"
  shows "\<exists>f. length (loads (openContributions sv ext s)) = Suc (length (loads s))
      \<and> l_target (loads (openContributions sv ext s) ! length (loads s)) = ManifestFetch f
      \<and> f < length (manifest_promises (openContributions sv ext s))
      \<and> (case manifest_promises (openContributions sv ext s) ! f of
            None \<Rightarrow> pending (openContributions sv ext s) (length (loads s))
                \<and> content (openContributions sv ext s) = []
          | Some r \<Rightarrow> content (openContributions sv ext s) = contributions_panel sv r)"
proof -
  let ?d = "empty_content (dispose_contentDisposables s)"
  from openContributions_task_shows [OF caches_ok_before_load [OF assms] before_load_frame(1), of sv]
  obtain f s' where t: "openContributions_task sv ?d = Some (length (loads ?d), s')"
    and p: "length (loads s') = Suc (length (loads ?d))"
      "l_target (loads s' ! length (loads ?d)) = ManifestFetch f"
      "f < length (manifest_promises s')"
      "case manifest_promises s' ! f of
            None \<Rightarrow> pending s' (length (loads ?d)) \<and> content s' = []
          | Some r \<Rightarrow> content s' = contributions_panel sv r"
    by blast
  note fr = start_load_frame [where task = "openContributions_task sv", OF t]
  have pe: "pending (openContributions sv ext s) = pending s'"
    unfolding openContributions_def loadContents_def by (rule pending_same_loads [OF fr(1)])
  show ?thesis
    using p fr pe unfolding openContributions_def loadContents_def
    by (intro exI [of _ f]) (auto simp: before_load_frame split: option.splits)
qed

text \<open>The one load that is pending is the one that waits for its fetch.\<close>

lemma waiting_on_single:
  assumes "inv_loads t" and "pending t lid" and "l_target (loads t ! lid) = tg"
  shows "waiting_on tg t = [lid]"
proof -
  from assms(1,2) have n: "length (loads t) = Suc lid" by (simp add: inv_loads_def)
  have older: "\<And>j. j < lid \<Longrightarrow> \<not> pending t j"
    using inv_loads_only [OF assms(1,2)] by blast
  have "filter (\<lambda>j. l_target (loads t ! j) = tg \<and> l_status (loads t ! j) = Pending) [0 ..< lid] = []"
    using older n by (auto simp: filter_empty_conv pending_def)
  moreover have "l_status (loads t ! lid) = Pending" using assms(2) by (simp add: pending_def)
  ultimately show ?thesis using assms(3) by (simp add: waiting_on_def n)
qed

lemma waiting_on_promises [simp]:
  "waiting_on tg (s\<lparr>readme_promises := rp\<rparr>) = waiting_on tg s"
  "waiting_on tg (s\<lparr>manifest_promises := mp\<rparr>) = waiting_on tg s"
  by (simp_all add: waiting_on_def)

lemma readme_arrival_shows:
  assumes "inv_loads t" and "pending t lid" and "l_target (loads t ! lid) = ReadmeFetch f"
    and "f < length (readme_promises t)" and "readme_promises t ! f = None"
  shows "content (readme_arrives sv f r t) = readme_panel sv (next_id t) r"
proof -
  let ?s1 = "t\<lparr>readme_promises := (readme_promises t)[f := Some r]\<rparr>"
  have w: "waiting_on (ReadmeFetch f) ?s1 = [lid]"
    using waiting_on_single [OF assms(1,2,3)] by simp
  have empty: "content t = []" using assms(1,2) by (simp add: inv_loads_def)
  obtain s' st where th: "readme_then sv r ?s1 = (s', st)" by (cases "readme_then sv r ?s1")
  have "content s' = content ?s1 @ readme_panel sv (next_id ?s1) r"
    using readme_then_content [of sv r ?s1] th by simp
  then have "content (continue_readme sv r lid ?s1) = readme_panel sv (next_id t) r"
    using assms(2) empty th by (simp add: continue_readme_def pending_def)
  then show ?thesis using assms(4,5) w by (simp add: readme_arrives_def Let_def)
qed

lemma manifest_arrival_shows:
  assumes "inv_loads t" and "pending t lid" and "l_target (loads t ! lid) = ManifestFetch f"
    and "f < length (manifest_promises t)" and "manifest_promises t ! f = None"
  shows "content (manifest_arrives sv f r t) = contributions_panel sv r"
proof -
  let ?s1 = "t\<lparr>manifest_promises := (manifest_promises t)[f := Some r]\<rparr>"
  have w: "waiting_on (ManifestFetch f) ?s1 = [lid]"
    using waiting_on_single [OF assms(1,2,3)] by simp
  have empty: "content ?s1 = []" using assms(1,2) by (simp add: inv_loads_def)
  obtain s' st where th: "manifest_then sv r ?s1 = (s', st)" by (cases "manifest_then sv r ?s1")
  have "content s' = contributions_panel sv r"
    using manifest_then_content [OF empty, of sv r] th by simp
  then have "content (continue_manifest sv r lid ?s1) = contributions_panel sv r"
    using assms(2) th by (simp add: continue_manifest_def pending_def)
  then show ?thesis using assms(4,5) w by (simp add: manifest_arrives_def Let_def)
qed


lemma last_newest: "length xs = Suc n \<Longrightarrow> last xs = xs ! n"
  by (cases xs rule: rev_cases) (simp_all add: nth_append)

lemma click_contributions:
  assumes nav: "inv_nav s" and lo: "inv_loads s" and ok: "caches_ok True s"
    and ls: "navbar_listeners s = [(n, ext)]"
    and en: "''contributions'' \<in> set (map a_id (filter a_enabled (navbar_actions s)))"
  shows "step sv s (Click ''contributions'')
       = (openContributions sv ext s)\<lparr>navbar_actions :=
            map (\<lambda>a. a\<lparr>a_enabled := (a_id a \<noteq> ''contributions'')\<rparr>) (navbar_actions s)\<rparr>"
    and "length (loads (step sv s (Click ''contributions''))) = Suc (length (loads s))"
    and "\<exists>f < length (manifest_promises (step sv s (Click ''contributions''))).
          l_target (last (loads (step sv s (Click ''contributions'')))) = ManifestFetch f
          \<and> (case manifest_promises (step sv s (Click ''contributions'')) ! f of
                Some r \<Rightarrow> content (step sv s (Click ''contributions'')) = contributions_panel sv r
              | None \<Rightarrow> content (step sv s (Click ''contributions'')) = []
                  \<and> (\<forall>r. content (step sv (step sv s (Click ''contributions'')) (ManifestArrives f r))
                         = contributions_panel sv r))"
proof -
  let ?o = "openContributions sv ext s"
  let ?c = "?o\<lparr>navbar_actions := map (\<lambda>a. a\<lparr>a_enabled := (a_id a \<noteq> ''contributions'')\<rparr>) (navbar_actions s)\<rparr>"
  let ?lid = "length (loads s)"
  from nav have nf: "nav_free (contentDisposables s)" by (simp add: inv_nav_def)
  have f: "fire sv ''contributions'' s = ?o"
    by (simp add: fire_def ls onNavbarChange_def NavbarSection_Readme_def NavbarSection_Contributions_def)
  have eq: "step sv s (Click ''contributions'') = ?c"
    using en fire_nav(2) [OF nf, of sv "''contributions''"]
    by (simp add: step_def navbar_run_def Let_def f)
  from openContributions_shows [OF ok, of sv ext] obtain f where
    len: "length (loads ?o) = Suc ?lid"
    and tg: "l_target (loads ?o ! ?lid) = ManifestFetch f"
    and lt: "f < length (manifest_promises ?o)"
    and sh: "case manifest_promises ?o ! f of
            None \<Rightarrow> pending ?o ?lid \<and> content ?o = []
          | Some r \<Rightarrow> content ?o = contributions_panel sv r"
    by blast
  have inv_c: "inv_loads ?c"
    using inv_loads_step [OF lo, of sv "Click ''contributions''"] eq by simp
  have la: "last (loads ?c) = loads ?o ! ?lid" using last_newest [OF len] by simp
  have arr: "\<And>r. manifest_promises ?o ! f = None \<Longrightarrow>
      content (step sv ?c (ManifestArrives f r)) = contributions_panel sv r"
  proof -
    fix r assume none: "manifest_promises ?o ! f = None"
    with sh have p: "pending ?c ?lid" by simp
    from manifest_arrival_shows [OF inv_c p, of f sv r] tg lt none
    show "content (step sv ?c (ManifestArrives f r)) = contributions_panel sv r"
      by (simp add: step_def)
  qed
  show "step sv s (Click ''contributions'') = ?c" by (rule eq)
  show "length (loads (step sv s (Click ''contributions''))) = Suc (length (loads s))"
    unfolding eq using len by simp
  show "\<exists>f < length (manifest_promises (step sv s (Click ''contributions''))).
          l_target (last (loads (step sv s (Click ''contributions'')))) = ManifestFetch f
          \<and> (case manifest_promises (step sv s (Click ''contributions'')) ! f of
                Some r \<Rightarrow> content (step sv s (Click ''contributions'')) = contributions_panel sv r
              | None \<Rightarrow> content (step sv s (Click ''contributions'')) = []
                  \<and> (\<forall>r. content (step sv (step sv s (Click ''contributions'')) (ManifestArrives f r))
                         = contributions_panel sv r))"
    unfolding eq using lt tg la sh arr
    by (intro exI [of _ f]) (auto split: option.splits)
qed

lemma click_readme:
  assumes nav: "inv_nav s" and lo: "inv_loads s" and ok: "caches_ok True s"
    and ls: "navbar_listeners s = [(n, ext)]"
    and en: "''readme'' \<in> set (map a_id (filter a_enabled (navbar_actions s)))"
  shows "step sv s (Click ''readme'')
       = (openReadme sv ext s)\<lparr>navbar_actions :=
            map (\<lambda>a. a\<lparr>a_enabled := (a_id a \<noteq> ''readme'')\<rparr>) (navbar_actions s)\<rparr>"
    and "length (loads (step sv s (Click ''readme''))) = Suc (length (loads s))"
    and "\<exists>f < length (readme_promises (step sv s (Click ''readme''))).
          l_target (last (loads (step sv s (Click ''readme'')))) = ReadmeFetch f
          \<and> (case readme_promises (step sv s (Click ''readme'')) ! f of
                Some r \<Rightarrow> content (step sv s (Click ''readme'')) = readme_panel sv (next_id s) r
              | None \<Rightarrow> content (step sv s (Click ''readme'')) = []
                  \<and> (\<forall>r. content (step sv (step sv s (Click ''readme'')) (ReadmeArrives f r))
                         = readme_panel sv (next_id (step sv s (Click ''readme''))) r))"
proof -
  let ?o = "openReadme sv ext s"
  let ?c = "?o\<lparr>navbar_actions := map (\<lambda>a. a\<lparr>a_enabled := (a_id a \<noteq> ''readme'')\<rparr>) (navbar_actions s)\<rparr>"
  let ?lid = "length (loads s)"
  from nav have nf: "nav_free (contentDisposables s)" by (simp add: inv_nav_def)
  have f: "fire sv ''readme'' s = ?o"
    by (simp add: fire_def ls onNavbarChange_def NavbarSection_Readme_def NavbarSection_Contributions_def)
  have eq: "step sv s (Click ''readme'') = ?c"
    using en fire_nav(2) [OF nf, of sv "''readme''"]
    by (simp add: step_def navbar_run_def Let_def f)
  from openReadme_shows [OF ok, of sv ext] obtain f where
    len: "length (loads ?o) = Suc ?lid"
    and tg: "l_target (loads ?o ! ?lid) = ReadmeFetch f"
    and lt: "f < length (readme_promises ?o)"
    and sh: "case readme_promises ?o ! f of
            None \<Rightarrow> pending ?o ?lid \<and> content ?o = [] \<and> next_id ?o = next_id s
          | Some r \<Rightarrow> content ?o = readme_panel sv (next_id s) r"
    by blast
  have inv_c: "inv_loads ?c"
    using inv_loads_step [OF lo, of sv "Click ''readme''"] eq by simp
  have la: "last (loads ?c) = loads ?o ! ?lid" using last_newest [OF len] by simp
  have arr: "\<And>r. readme_promises ?o ! f = None \<Longrightarrow>
      content (step sv ?c (ReadmeArrives f r)) = readme_panel sv (next_id ?c) r"
  proof -
    fix r assume none: "readme_promises ?o ! f = None"
    with sh have p: "pending ?c ?lid" by simp
    from readme_arrival_shows [OF inv_c p, of f sv r] tg lt none
    show "content (step sv ?c (ReadmeArrives f r)) = readme_panel sv (next_id ?c) r"
      by (simp add: step_def)
  qed
  show "step sv s (Click ''readme'') = ?c" by (rule eq)
  show "length (loads (step sv s (Click ''readme''))) = Suc (length (loads s))"
    unfolding eq using len by simp
  show "\<exists>f < length (readme_promises (step sv s (Click ''readme''))).
          l_target (last (loads (step sv s (Click ''readme'')))) = ReadmeFetch f
          \<and> (case readme_promises (step sv s (Click ''readme'')) ! f of
                Some r \<Rightarrow> content (step sv s (Click ''readme'')) = readme_panel sv (next_id s) r
              | None \<Rightarrow> content (step sv s (Click ''readme'')) = []
                  \<and> (\<forall>r. content (step sv (step sv s (Click ''readme'')) (ReadmeArrives f r))
                         = readme_panel sv (next_id (step sv s (Click ''readme''))) r))"
    unfolding eq using lt tg la sh arr
    by (intro exI [of _ f]) (auto split: option.splits)
qed


lemma setInput_shows:
  assumes nav: "inv_nav s" and lo: "inv_loads s" and ok: "caches_ok p s"
  shows "content (setInput sv ext s) = []"
    and "length (loads (setInput sv ext s)) = Suc (length (loads s))"
    and "\<exists>f < length (readme_promises (setInput sv ext s)).
          l_target (last (loads (setInput sv ext s))) = ReadmeFetch f
          \<and> (readme_promises (setInput sv ext s) ! f = None \<longrightarrow>
               (\<forall>r. content (step sv (setInput sv ext s) (ReadmeArrives f r))
                      = readme_panel sv (next_id (setInput sv ext s)) r))"
proof -
  let ?s3 = "new_input sv ext s"
  let ?s5 = "navbar_onChange ext (navbar_clear ?s3)"
  let ?a1 = "\<lparr>a_id = NavbarSection_Readme, a_label = localize ''details'' ''Details'', a_enabled = True\<rparr>"
  let ?s5a = "?s5\<lparr>navbar_actions := navbar_actions ?s5 @ [?a1]\<rparr>"
  let ?s6 = "navbar_push sv NavbarSection_Readme (localize ''details'' ''Details'') ?s5"
  let ?a2 = "\<lparr>a_id = NavbarSection_Contributions, a_label = localize ''contributions'' ''Contributions'', a_enabled = True\<rparr>"
  let ?s7 = "navbar_push sv NavbarSection_Contributions (localize ''contributions'' ''Contributions'') ?s6"
  let ?t = "setInput sv ext s"
  define po where "po = openReadme sv ext ?s5a"
  note n3 = new_input_nav [OF nav, of sv ext]
  have s5: "navbar_listeners ?s5a = [(next_id ?s3, ext)]" "navbar_actions ?s5 = []"
    "nav_free (contentDisposables ?s5a)"
    using n3 by (simp_all add: navbar_onChange_def navbar_clear_def)
  have f: "fire sv NavbarSection_Readme ?s5a = po"
    by (simp add: fire_def s5(1) onNavbarChange_def po_def)
  have s6eq: "?s6 = navbar_run sv NavbarSection_Readme ?s5a"
    using s5(2) by (simp add: navbar_push_def Let_def)
  have a6: "navbar_actions ?s6 = [?a1\<lparr>a_enabled := False\<rparr>]"
    unfolding s6eq using navbar_run_nav(2) [OF s5(3), of sv NavbarSection_Readme] s5(2) by simp
  have s7eq: "?s7 = ?s6\<lparr>navbar_actions := navbar_actions ?s6 @ [?a2]\<rparr>"
    using a6 by (simp add: navbar_push_def Let_def)
  have res: "?t = ?s7\<lparr>content := []\<rparr>" by (simp add: setInput_def Let_def)
  have same6: "loads ?s6 = loads po" "readme_promises ?s6 = readme_promises po" "next_id ?s6 = next_id po"
    unfolding s6eq by (simp_all add: navbar_run_def Let_def f)
  have same7: "loads ?s7 = loads ?s6" "readme_promises ?s7 = readme_promises ?s6" "next_id ?s7 = next_id ?s6"
    by (subst s7eq, simp)+
  have same: "loads ?t = loads po" "readme_promises ?t = readme_promises po" "next_id ?t = next_id po"
    unfolding res using same6 same7 by simp_all
  have len5: "length (loads ?s5a) = length (loads s)"
    by (simp add: navbar_onChange_def navbar_clear_def new_input_def Let_def)
  have "caches_ok True ?s3" by (rule caches_ok_new_input [OF ok])
  then have ok5: "caches_ok True ?s5a"
    by (rule caches_ok_same_view) (simp add: navbar_onChange_def navbar_clear_def)
  have "\<exists>f. length (loads po) = Suc (length (loads s))
      \<and> l_target (loads po ! length (loads s)) = ReadmeFetch f
      \<and> f < length (readme_promises po)
      \<and> (readme_promises po ! f = None \<longrightarrow> pending po (length (loads s)))"
    using openReadme_shows [OF ok5, of sv ext, unfolded len5, folded po_def]
    by (auto split: option.splits)
  then obtain f where
    len: "length (loads po) = Suc (length (loads s))"
    and tg: "l_target (loads po ! length (loads s)) = ReadmeFetch f"
    and lt: "f < length (readme_promises po)"
    and sh: "readme_promises po ! f = None \<longrightarrow> pending po (length (loads s))"
    by (elim exE conjE)
  have inv_t: "inv_loads ?t" by (rule inv_loads_setInput [OF lo])
  have la: "last (loads ?t) = loads ?t ! length (loads s)"
    using last_newest [of "loads ?t" "length (loads s)"] len same(1) by simp
  have tg': "l_target (loads ?t ! length (loads s)) = ReadmeFetch f" using tg same(1) by simp
  have lt': "f < length (readme_promises ?t)" using lt same(2) by simp
  have arr: "\<And>r. readme_promises ?t ! f = None \<Longrightarrow>
      content (step sv ?t (ReadmeArrives f r)) = readme_panel sv (next_id ?t) r"
  proof -
    fix r assume none: "readme_promises ?t ! f = None"
    with sh same(2) have "pending po (length (loads s))" by simp
    then have p: "pending ?t (length (loads s))"
      by (simp add: pending_same_loads [OF same(1)])
    from readme_arrival_shows [OF inv_t p tg' lt' none, of sv r]
    show "content (step sv ?t (ReadmeArrives f r)) = readme_panel sv (next_id ?t) r"
      by (simp add: step_def)
  qed
  show "content ?t = []" unfolding res by simp
  show "length (loads ?t) = Suc (length (loads s))" using same(1) len by simp
  show "\<exists>f < length (readme_promises ?t).
          l_target (last (loads ?t)) = ReadmeFetch f
          \<and> (readme_promises ?t ! f = None \<longrightarrow>
               (\<forall>r. content (step sv ?t (ReadmeArrives f r)) = readme_panel sv (next_id ?t) r))"
    using lt' tg' la arr by (intro exI [of _ f]) simp
qed

text \<open>
  C3: after every call of \<open>setInput\<close> the navigation bar has exactly the two tabs
  \<^verbatim>\<open>readme\<close>, labelled Details, and \<^verbatim>\<open>contributions\<close>, labelled Contributions. Details is the
  tab selected (it is disabled, line 71): \<open>setInput\<close> has started the load of the README,
  the content element is empty, and when the README arrives the README panel is shown.
  Firing the change event with \<^verbatim>\<open>readme\<close> runs \<open>openReadme\<close> for the input's extension,
  with \<^verbatim>\<open>contributions\<close> it runs \<open>openContributions\<close>, and with any other id it changes
  nothing. A click does something on the Contributions tab only: it runs
  \<open>openContributions\<close>, which starts a load on the manifest and shows the contributions
  panel, at once when the manifest is there and else when it arrives, and it enables
  Details and disables Contributions. From there a click does something on the Details
  tab only: it runs \<open>openReadme\<close>, which starts a load on the README and shows the README
  panel, at once or when the README arrives, and the tabs are as they were after
  \<open>setInput\<close>. A click on the tab that is shown, or on an id that is no tab, changes
  nothing at any of these points.
\<close>

theorem C3_two_tabs_after_setInput:
  "let s = setInput sv ext (run sv evs);
       c = step sv s (Click ''contributions'');
       d = step sv c (Click ''readme'')
   in map (\<lambda>a. (a_id a, a_label a, a_enabled a)) (navbar_actions s)
        = [(''readme'', ''Details'', False), (''contributions'', ''Contributions'', True)]
    \<and> content s = []
    \<and> length (loads s) = Suc (length (loads (run sv evs)))
    \<and> (\<exists>f < length (readme_promises s).
          l_target (last (loads s)) = ReadmeFetch f
          \<and> (readme_promises s ! f = None \<longrightarrow>
               (\<forall>r. content (step sv s (ReadmeArrives f r)) = readme_panel sv (next_id s) r)))
    \<and> fire sv ''readme'' s = openReadme sv ext s
    \<and> fire sv ''contributions'' s = openContributions sv ext s
    \<and> (\<forall>ident. ident \<noteq> ''readme'' \<and> ident \<noteq> ''contributions'' \<longrightarrow> fire sv ident s = s)
    \<and> (\<forall>ident. ident \<noteq> ''contributions'' \<longrightarrow> step sv s (Click ident) = s)
    \<and> c = (openContributions sv ext s)\<lparr>navbar_actions :=
             map (\<lambda>a. a\<lparr>a_enabled := (a_id a \<noteq> ''contributions'')\<rparr>) (navbar_actions s)\<rparr>
    \<and> length (loads c) = Suc (length (loads s))
    \<and> (\<exists>f < length (manifest_promises c).
          l_target (last (loads c)) = ManifestFetch f
          \<and> (case manifest_promises c ! f of
                Some r \<Rightarrow> content c = contributions_panel sv r
              | None \<Rightarrow> content c = []
                  \<and> (\<forall>r. content (step sv c (ManifestArrives f r)) = contributions_panel sv r)))
    \<and> map (\<lambda>a. (a_id a, a_enabled a)) (navbar_actions c) = [(''readme'', True), (''contributions'', False)]
    \<and> (\<forall>ident. ident \<noteq> ''readme'' \<longrightarrow> step sv c (Click ident) = c)
    \<and> d = (openReadme sv ext c)\<lparr>navbar_actions :=
             map (\<lambda>a. a\<lparr>a_enabled := (a_id a \<noteq> ''readme'')\<rparr>) (navbar_actions c)\<rparr>
    \<and> length (loads d) = Suc (length (loads c))
    \<and> (\<exists>f < length (readme_promises d).
          l_target (last (loads d)) = ReadmeFetch f
          \<and> (case readme_promises d ! f of
                Some r \<Rightarrow> content d = readme_panel sv (next_id c) r
              | None \<Rightarrow> content d = []
                  \<and> (\<forall>r. content (step sv d (ReadmeArrives f r)) = readme_panel sv (next_id d) r)))"
proof -
  let ?s = "setInput sv ext (run sv evs)"
  let ?c = "step sv ?s (Click ''contributions'')"
  note n = setInput_nav [OF inv_nav_run, of sv ext sv evs]
  have lo: "inv_loads ?s" by (rule inv_loads_setInput [OF inv_loads_run])
  have ok: "caches_ok True ?s" by (rule caches_ok_setInput [OF caches_ok_run])
  from n(3) have nf: "nav_free (contentDisposables ?s)" by (simp add: inv_nav_def)
  have f: "\<And>ident. fire sv ident ?s = onNavbarChange sv ext ident ?s"
    by (simp add: fire_def n(1))
  have en: "map a_id (filter a_enabled (navbar_actions ?s)) = [''contributions'']"
    by (simp add: n(2) NavbarSection_Contributions_def)
  have 1: "map (\<lambda>a. (a_id a, a_label a, a_enabled a)) (navbar_actions ?s)
        = [(''readme'', ''Details'', False), (''contributions'', ''Contributions'', True)]"
    by (simp add: n(2) NavbarSection_Readme_def NavbarSection_Contributions_def localize_def)
  note i = setInput_shows [OF inv_nav_run inv_loads_run caches_ok_run, of sv ext sv evs]
  have 2: "fire sv ''readme'' ?s = openReadme sv ext ?s"
    and 3: "fire sv ''contributions'' ?s = openContributions sv ext ?s"
    and 4: "\<forall>ident. ident \<noteq> ''readme'' \<and> ident \<noteq> ''contributions'' \<longrightarrow> fire sv ident ?s = ?s"
    by (simp_all add: f onNavbarChange_def NavbarSection_Readme_def NavbarSection_Contributions_def)
  have 5: "\<forall>ident. ident \<noteq> ''contributions'' \<longrightarrow> step sv ?s (Click ident) = ?s"
    by (simp add: step_def en)
  have ens: "''contributions'' \<in> set (map a_id (filter a_enabled (navbar_actions ?s)))"
    by (simp add: en)
  note c = click_contributions [OF n(3) lo ok n(1) ens, of sv]
  have nav_c: "inv_nav ?c" by (rule inv_nav_step [OF n(3)])
  have lo_c: "inv_loads ?c" by (rule inv_loads_step [OF lo])
  have ok_c: "caches_ok True ?c" by (rule caches_ok_step [OF ok])
  have ls_c: "navbar_listeners ?c = [(next_id (new_input sv ext (run sv evs)), ext)]"
    using onNavbarChange_nav(1) [OF nf, of sv ext "''contributions''"] n(1)
    unfolding c(1) by (simp add: onNavbarChange_def NavbarSection_Readme_def NavbarSection_Contributions_def)
  have ac_c: "navbar_actions ?c = map (\<lambda>a. a\<lparr>a_enabled := (a_id a \<noteq> ''contributions'')\<rparr>) (navbar_actions ?s)"
    unfolding c(1) by simp
  have 9: "map (\<lambda>a. (a_id a, a_enabled a)) (navbar_actions ?c) = [(''readme'', True), (''contributions'', False)]"
    unfolding ac_c by (simp add: n(2) NavbarSection_Readme_def NavbarSection_Contributions_def)
  have en_c: "map a_id (filter a_enabled (navbar_actions ?c)) = [''readme'']"
    unfolding ac_c by (simp add: n(2) NavbarSection_Readme_def NavbarSection_Contributions_def)
  have 10: "\<forall>ident. ident \<noteq> ''readme'' \<longrightarrow> step sv ?c (Click ident) = ?c"
    by (simp add: step_def [of sv ?c] en_c)
  have enc: "''readme'' \<in> set (map a_id (filter a_enabled (navbar_actions ?c)))"
    by (simp add: en_c)
  note d = click_readme [OF nav_c lo_c ok_c ls_c enc, of sv]
  show ?thesis
    unfolding Let_def
    by (intro conjI) (rule 1 i(1) i(2) i(3) 2 3 4 5 c(1) c(2) c(3) 9 10 d(1) d(2) d(3))+
qed

theorem C3_witness:
  "''readme'' \<noteq> ''contributions''
   \<and> step example_services (setInput example_services example_extension (run example_services []))
         (Click ''readme'')
       = setInput example_services example_extension (run example_services [])
   \<and> content (step example_services
         (step example_services (setInput example_services example_extension (run example_services []))
            (Click ''contributions''))
         (ManifestArrives 0 (Inr example_manifest)))
       = contributions_panel example_services (Inr example_manifest)
   \<and> content (step example_services
         (step example_services
            (step example_services (setInput example_services example_extension (run example_services []))
               (Click ''contributions''))
            (Click ''readme''))
         (ReadmeArrives 1 (Inr ''# Hello'')))
       = readme_panel example_services 1 (Inr ''# Hello'')"
proof -
  let ?s = "setInput example_services example_extension (run example_services [])"
  let ?c = "step example_services ?s (Click ''contributions'')"
  let ?d = "step example_services ?c (Click ''readme'')"
  note t = C3_two_tabs_after_setInput [of example_services example_extension "[]", unfolded Let_def]
  from t have dis: "\<forall>ident. ident \<noteq> ''contributions'' \<longrightarrow> step example_services ?s (Click ident) = ?s"
    by (elim conjE)
  from t have "\<exists>f < length (manifest_promises ?c).
          l_target (last (loads ?c)) = ManifestFetch f
          \<and> (case manifest_promises ?c ! f of
                Some r \<Rightarrow> content ?c = contributions_panel example_services r
              | None \<Rightarrow> content ?c = []
                  \<and> (\<forall>r. content (step example_services ?c (ManifestArrives f r))
                         = contributions_panel example_services r))"
    by (elim conjE)
  then obtain f where f: "l_target (last (loads ?c)) = ManifestFetch f"
    and cf: "case manifest_promises ?c ! f of
                Some r \<Rightarrow> content ?c = contributions_panel example_services r
              | None \<Rightarrow> content ?c = []
                  \<and> (\<forall>r. content (step example_services ?c (ManifestArrives f r))
                         = contributions_panel example_services r)"
    by (elim exE conjE)
  have "l_target (last (loads ?c)) = ManifestFetch 0" by code_simp
  with f have f0: "f = 0" by simp
  have "manifest_promises ?c ! 0 = None" by code_simp
  with cf f0 have m: "content (step example_services ?c (ManifestArrives 0 (Inr example_manifest)))
      = contributions_panel example_services (Inr example_manifest)"
    by simp
  from t have "\<exists>f < length (readme_promises ?d).
          l_target (last (loads ?d)) = ReadmeFetch f
          \<and> (case readme_promises ?d ! f of
                Some r \<Rightarrow> content ?d = readme_panel example_services (next_id ?c) r
              | None \<Rightarrow> content ?d = []
                  \<and> (\<forall>r. content (step example_services ?d (ReadmeArrives f r))
                         = readme_panel example_services (next_id ?d) r))"
    by (elim conjE)
  then obtain g where g: "l_target (last (loads ?d)) = ReadmeFetch g"
    and cg: "case readme_promises ?d ! g of
                Some r \<Rightarrow> content ?d = readme_panel example_services (next_id ?c) r
              | None \<Rightarrow> content ?d = []
                  \<and> (\<forall>r. content (step example_services ?d (ReadmeArrives g r))
                         = readme_panel example_services (next_id ?d) r)"
    by (elim exE conjE)
  have "l_target (last (loads ?d)) = ReadmeFetch 1" by code_simp
  with g have g1: "g = 1" by simp
  have "readme_promises ?d ! 1 = None" and "next_id ?d = 1" by code_simp+
  with cg g1 have r: "content (step example_services ?d (ReadmeArrives 1 (Inr ''# Hello'')))
      = readme_panel example_services 1 (Inr ''# Hello'')"
    by simp
  from dis have "step example_services ?s (Click ''readme'') = ?s" by simp
  with m r show ?thesis by simp
qed

section \<open>A README that cannot be shown\<close>

lemma readme_chain_fails:
  assumes "readme_fails sv r"
  shows "\<exists>s1 e. readme_chain sv r s = (s1, Inl e)"
proof (cases r)
  case (Inl e)
  then show ?thesis by (simp add: readme_chain_def)
next
  case (Inr md)
  show ?thesis
  proof (cases "marked_parse sv md")
    case (Inl e)
    with Inr show ?thesis by (simp add: readme_chain_def)
  next
    case parsed: (Inr html)
    with assms Inr obtain stage where "webview_throws sv (renderBody (toUrl sv) html) = Some stage"
      by (auto simp: readme_fails_def)
    with Inr parsed show ?thesis
      by (cases stage) (simp_all add: readme_chain_def display_readme_def Let_def)
  qed
qed

text \<open>
  C8: when fetching, parsing or displaying the README fails, the chain of \<open>openReadme\<close>
  ends resolved, not rejected, and the last child of the content element is the paragraph
  with the text \<^verbatim>\<open>No README available.\<close>; a load that was pending ends \<open>Resolved\<close>.
\<close>

theorem C8_failed_readme_shows_no_readme:
  assumes "readme_fails sv r"
  shows "(\<exists>s1. readme_then sv r s = (s1, Resolved) \<and> content s1 \<noteq> [] \<and> last (content s1) = no_readme)
     \<and> (pending s lid \<longrightarrow>
           l_status (loads (continue_readme sv r lid s) ! lid) = Resolved
           \<and> content (continue_readme sv r lid s) \<noteq> []
           \<and> last (content (continue_readme sv r lid s)) = no_readme)
     \<and> no_readme = Element ''p'' [] [TextNode ''No README available.'']"
proof -
  from readme_chain_fails [OF assms, of s] obtain s1 e where c: "readme_chain sv r s = (s1, Inl e)"
    by blast
  then have t: "readme_then sv r s = (show_no_readme s1, Resolved)"
    by (simp add: readme_then_def)
  have first: "\<exists>s1. readme_then sv r s = (s1, Resolved) \<and> content s1 \<noteq> [] \<and> last (content s1) = no_readme"
    using t by simp
  have second: "pending s lid \<longrightarrow>
           l_status (loads (continue_readme sv r lid s) ! lid) = Resolved
           \<and> content (continue_readme sv r lid s) \<noteq> []
           \<and> last (content (continue_readme sv r lid s)) = no_readme"
  proof
    assume p: "pending s lid"
    note th = readme_then_frame [OF t]
    have s': "continue_readme sv r lid s = (set_status lid Resolved (show_no_readme s1))\<lparr>content_loading := False\<rparr>"
      using p t by (simp add: continue_readme_def pending_def)
    have "lid < length (loads (show_no_readme s1))" using p th(1) by (simp add: pending_def)
    then show "l_status (loads (continue_readme sv r lid s) ! lid) = Resolved
           \<and> content (continue_readme sv r lid s) \<noteq> []
           \<and> last (content (continue_readme sv r lid s)) = no_readme"
      unfolding s' by (simp add: status_set_status)
  qed
  have "no_readme = Element ''p'' [] [TextNode ''No README available.'']"
    by (simp add: no_readme_def dollar_def localize_def)
  with first second show ?thesis by blast
qed

theorem C8_witness:
  "readme_fails example_services (Inl FetchError)
   \<and> pending (run example_services [SetInput example_extension]) 0
   \<and> l_status (loads (continue_readme example_services (Inl FetchError) 0
        (run example_services [SetInput example_extension])) ! 0) = Resolved
   \<and> last (content (continue_readme example_services (Inl FetchError) 0
        (run example_services [SetInput example_extension]))) = no_readme"
proof -
  have f: "readme_fails example_services (Inl FetchError)" by (simp add: readme_fails_def)
  have p: "pending (run example_services [SetInput example_extension]) 0" by code_simp
  from C8_failed_readme_shows_no_readme [OF f, of "run example_services [SetInput example_extension]" 0] f p
  show ?thesis by blast
qed

section \<open>The document shown in the webview\<close>

text \<open>
  C4, as the claim states it, fails at an explicit input: the rendered body
  \<^verbatim>\<open><script>alert(1)</script>\<close> stands in the document that \<open>renderBody\<close> returns,
  character for character.
\<close>

theorem C4_script_reaches_document:
  "sublist ''<script>alert(1)</script>''
     (renderBody ''markdown.css'' ''<script>alert(1)</script>'')"
  unfolding renderBody_def by (rule sublist_appendI)

text \<open>
  C4, amended: when \<^verbatim>\<open>marked.parse\<close> returns a body and the webview shows it, the document
  handed to the webview is \<open>renderBody\<close> of that body: the body as \<^verbatim>\<open>marked.parse\<close> returned
  it, unmodified, between a head and a tail that do not depend on it. Nothing in this file
  escapes or removes markup.
\<close>

theorem C4_webview_gets_rendered_body_verbatim:
  assumes "marked_parse sv readme = Inr html"
    and "webview_throws sv (renderBody (toUrl sv) html) = None"
  shows "content (fst (readme_chain sv (Inr readme) s))
           = content s @ [WebViewElement (next_id s) [renderBody (toUrl sv) html]]
     \<and> renderBody (toUrl sv) html = renderBody_head (toUrl sv) @ html @ renderBody_tail
     \<and> sublist html (renderBody (toUrl sv) html)"
proof -
  have "content (fst (readme_chain sv (Inr readme) s))
           = content s @ [WebViewElement (next_id s) [renderBody (toUrl sv) html]]"
    using assms by (simp add: readme_chain_def display_readme_def Let_def append_node_def)
  moreover have "sublist html (renderBody (toUrl sv) html)"
    unfolding renderBody_def by (rule sublist_appendI)
  ultimately show ?thesis by (simp add: renderBody_def)
qed

theorem C4_witness:
  "marked_parse example_services ''<b>hi</b>'' = Inr ''<b>hi</b>''
   \<and> webview_throws example_services (renderBody (toUrl example_services) ''<b>hi</b>'') = None
   \<and> content (fst (readme_chain example_services (Inr ''<b>hi</b>'') initial))
       = [WebViewElement 0 [renderBody ''markdown.css'' ''<b>hi</b>'']]
   \<and> sublist ''<b>hi</b>'' (renderBody ''markdown.css'' ''<b>hi</b>'')"
proof -
  have a: "marked_parse example_services ''<b>hi</b>'' = Inr ''<b>hi</b>''"
    and b: "webview_throws example_services (renderBody (toUrl example_services) ''<b>hi</b>'') = None"
    by (simp_all add: example_services_def)
  have t: "toUrl example_services = ''markdown.css''" by (simp add: example_services_def)
  have n: "next_id initial = 0" "content initial = []" by (simp_all add: initial_def)
  note c = C4_webview_gets_rendered_body_verbatim [OF a b, of initial, unfolded t n append_Nil]
  from c a b show ?thesis by blast
qed

end
